theory Spec2Isabelle
  imports Main "HOL-Library.Word"
begin

unbundle bit_operations_syntax

section \<open>Data: bytes and Python strings\<close>

text \<open>
  \<^verbatim>\<open>decrypt_backup.py\<close> works on two kinds of Python values: \<^verbatim>\<open>bytes\<close> (a sequence of
  integers 0..255) and \<^verbatim>\<open>str\<close> (a sequence of Unicode code points). A byte is an 8-bit
  word; a \<^verbatim>\<open>str\<close> is the list of its code points as natural numbers. Every exception
  the two functions \<^verbatim>\<open>derive_key\<close> and \<^verbatim>\<open>decrypt\<close> can raise is a constructor of
  \<open>error\<close>, and a function that can raise returns \<open>error + 'a\<close>.
\<close>

type_synonym byte = "8 word"
type_synonym bytes = "byte list"
type_synonym pystr = "nat list"

datatype error =
    Base64Error          \<comment> \<open>\<^verbatim>\<open>base64.b64decode\<close>: binascii.Error, or ValueError on a non-ASCII string\<close>
  | InvalidFormat        \<comment> \<open>line 38: \<^verbatim>\<open>ValueError("Invalid encrypted data format")\<close>\<close>
  | UnicodeEncodeError   \<comment> \<open>line 25: \<^verbatim>\<open>password.encode('utf-8')\<close> on a lone surrogate\<close>
  | CipherSetupError     \<comment> \<open>line 49: \<^verbatim>\<open>AES.new\<close>: ValueError on a wrong key or IV length\<close>
  | CipherLengthError    \<comment> \<open>line 50: \<^verbatim>\<open>cipher.decrypt\<close>: ValueError, data not padded to 16 bytes\<close>
  | IndexError           \<comment> \<open>line 53: \<^verbatim>\<open>decrypted_data[-1]\<close> on empty bytes\<close>
  | UnicodeDecodeError   \<comment> \<open>line 56: \<^verbatim>\<open>decrypted_data.decode('utf-8')\<close>\<close>

text \<open>A string literal of the source, as a Python \<^verbatim>\<open>str\<close>.\<close>

definition text_of :: "string \<Rightarrow> pystr" where
  "text_of s = map of_char s"

subsection \<open>Python slicing and indexing\<close>

text \<open>
  \<^verbatim>\<open>xs[a:b]\<close> for indices \<open>0 \<le> a\<close> and \<open>0 \<le> b\<close>: out-of-range bounds are clamped, never an
  error. \<^verbatim>\<open>xs[a:]\<close> is \<open>drop a xs\<close>.
\<close>

definition py_slice :: "'a list \<Rightarrow> nat \<Rightarrow> nat \<Rightarrow> 'a list" where
  "py_slice xs a b = drop a (take b xs)"

text \<open>
  \<^verbatim>\<open>xs[:k]\<close> for any integer \<open>k\<close>: a negative stop counts from the end and is clamped
  at 0; a stop of 0 (and \<^verbatim>\<open>-0\<close> is 0) gives the empty sequence.
\<close>

definition py_slice_to :: "'a list \<Rightarrow> int \<Rightarrow> 'a list" where
  "py_slice_to xs k =
     (if k < 0 then take (nat (max 0 (int (length xs) + k))) xs else take (nat k) xs)"

text \<open>\<^verbatim>\<open>xs[-1]\<close>: the last element, IndexError on an empty sequence.\<close>

definition py_last :: "'a list \<Rightarrow> error + 'a" where
  "py_last xs = (if xs = [] then Inl IndexError else Inr (last xs))"

section \<open>The standard library: UTF-8 and Base64\<close>

subsection \<open>\<^verbatim>\<open>str.encode('utf-8')\<close> and \<^verbatim>\<open>bytes.decode('utf-8')\<close>\<close>

text \<open>
  The strict UTF-8 codec. Encoding fails (UnicodeEncodeError) on a surrogate code point
  D800..DFFF; a \<^verbatim>\<open>str\<close> holds no code point above 10FFFF. Decoding fails
  (UnicodeDecodeError) on a stray or missing continuation byte, an overlong form, a
  surrogate and a value above 10FFFF.
\<close>

definition utf8_encode_cp :: "nat \<Rightarrow> bytes option" where
  "utf8_encode_cp c =
     (if c < 0x80 then Some [of_nat c]
      else if c < 0x800 then Some [of_nat (0xC0 + c div 64), of_nat (0x80 + c mod 64)]
      else if 0xD800 \<le> c \<and> c < 0xE000 then None
      else if c < 0x10000 then
        Some [of_nat (0xE0 + c div 4096), of_nat (0x80 + c div 64 mod 64), of_nat (0x80 + c mod 64)]
      else if c < 0x110000 then
        Some [of_nat (0xF0 + c div 262144), of_nat (0x80 + c div 4096 mod 64),
              of_nat (0x80 + c div 64 mod 64), of_nat (0x80 + c mod 64)]
      else None)"

fun utf8_encode :: "pystr \<Rightarrow> bytes option" where
  "utf8_encode [] = Some []"
| "utf8_encode (c # cs) =
     (case utf8_encode_cp c of
        None \<Rightarrow> None
      | Some bs \<Rightarrow> (case utf8_encode cs of None \<Rightarrow> None | Some r \<Rightarrow> Some (bs @ r)))"

definition is_cont :: "byte \<Rightarrow> bool" where
  "is_cont b = (0x80 \<le> unat b \<and> unat b < 0xC0)"

text \<open>The payload bits of a continuation byte.\<close>

definition cont_bits :: "byte \<Rightarrow> nat" where
  "cont_bits b = unat b - 0x80"

fun utf8_decode :: "bytes \<Rightarrow> pystr option" where
  "utf8_decode [] = Some []"
| "utf8_decode (b0 # bs) =
     (if unat b0 < 0x80 then map_option ((#) (unat b0)) (utf8_decode bs)
      else if unat b0 < 0xC2 then None
      else if unat b0 < 0xE0 then
        (case bs of
           b1 # r \<Rightarrow>
             if is_cont b1
             then map_option ((#) ((unat b0 - 0xC0) * 64 + cont_bits b1)) (utf8_decode r)
             else None
         | _ \<Rightarrow> None)
      else if unat b0 < 0xF0 then
        (case bs of
           b1 # b2 # r \<Rightarrow>
             (let c = (unat b0 - 0xE0) * 4096 + cont_bits b1 * 64 + cont_bits b2
              in if is_cont b1 \<and> is_cont b2 \<and> 0x800 \<le> c \<and> \<not> (0xD800 \<le> c \<and> c < 0xE000)
                 then map_option ((#) c) (utf8_decode r)
                 else None)
         | _ \<Rightarrow> None)
      else if unat b0 < 0xF5 then
        (case bs of
           b1 # b2 # b3 # r \<Rightarrow>
             (let c = (unat b0 - 0xF0) * 262144 + cont_bits b1 * 4096 + cont_bits b2 * 64
                      + cont_bits b3
              in if is_cont b1 \<and> is_cont b2 \<and> is_cont b3 \<and> 0x10000 \<le> c \<and> c < 0x110000
                 then map_option ((#) c) (utf8_decode r)
                 else None)
         | _ \<Rightarrow> None)
      else None)"

subsection \<open>\<^verbatim>\<open>base64.b64decode\<close>\<close>

text \<open>
  \<^verbatim>\<open>base64.b64decode(s)\<close> with a \<^verbatim>\<open>str\<close> argument first encodes it as ASCII (a ValueError
  on any code point above 127) and then runs \<^verbatim>\<open>binascii.a2b_base64\<close> in its default,
  non-strict mode: characters outside the alphabet are skipped, a pad sequence that
  completes a quad ends the parse, and leftover characters of an unfinished quad are an
  error (binascii.Error).
\<close>

definition b64_value :: "nat \<Rightarrow> byte option" where
  "b64_value c =
     (if 65 \<le> c \<and> c \<le> 90 then Some (of_nat (c - 65))
      else if 97 \<le> c \<and> c \<le> 122 then Some (of_nat (c - 71))
      else if 48 \<le> c \<and> c \<le> 57 then Some (of_nat (c + 4))
      else if c = 43 then Some 62
      else if c = 47 then Some 63
      else None)"

text \<open>
  The loop of \<^verbatim>\<open>a2b_base64\<close>: \<open>quad_pos\<close> is the position in the current group of four
  characters, \<open>leftchar\<close> the bits not yet written, \<open>pads\<close> the number of \<^verbatim>\<open>=\<close> seen since
  the last alphabet character. The result is the bytes written from here on.
\<close>

fun a2b_base64 :: "nat \<Rightarrow> byte \<Rightarrow> nat \<Rightarrow> nat list \<Rightarrow> bytes option" where
  "a2b_base64 quad_pos leftchar pads [] = (if quad_pos \<noteq> 0 then None else Some [])"
| "a2b_base64 quad_pos leftchar pads (c # cs) =
     (if c = 61 then
        (if 2 \<le> quad_pos \<and> 4 \<le> quad_pos + (pads + 1) then Some []
         else a2b_base64 quad_pos leftchar (if 2 \<le> quad_pos then pads + 1 else pads) cs)
      else
        (case b64_value c of
           None \<Rightarrow> a2b_base64 quad_pos leftchar pads cs
         | Some v \<Rightarrow>
             if quad_pos = 0 then a2b_base64 1 v 0 cs
             else if quad_pos = 1 then
               map_option ((#) (push_bit 2 leftchar OR drop_bit 4 v))
                 (a2b_base64 2 (v AND 0x0f) 0 cs)
             else if quad_pos = 2 then
               map_option ((#) (push_bit 4 leftchar OR drop_bit 2 v))
                 (a2b_base64 3 (v AND 0x03) 0 cs)
             else
               map_option ((#) (push_bit 6 leftchar OR v)) (a2b_base64 0 0 0 cs)))"

definition b64decode :: "pystr \<Rightarrow> bytes option" where
  "b64decode s = (if \<exists>c \<in> set s. 127 < c then None else a2b_base64 0 0 0 s)"

text \<open>
  \<^verbatim>\<open>base64.b64encode\<close>, the standard encoding with padding (RFC 4648), used by the
  producer of a backup.
\<close>

definition b64_char :: "byte \<Rightarrow> nat" where
  "b64_char v =
     (let n = unat v
      in if n < 26 then 65 + n else if n < 52 then 71 + n else if n < 62 then n - 4
         else if n = 62 then 43 else 47)"

fun b64encode :: "bytes \<Rightarrow> pystr" where
  "b64encode (a # b # c # r) =
     b64_char (drop_bit 2 a) # b64_char (push_bit 4 (a AND 3) OR drop_bit 4 b)
       # b64_char (push_bit 2 (b AND 15) OR drop_bit 6 c) # b64_char (c AND 63) # b64encode r"
| "b64encode [a, b] =
     [b64_char (drop_bit 2 a), b64_char (push_bit 4 (a AND 3) OR drop_bit 4 b),
      b64_char (push_bit 2 (b AND 15)), 61]"
| "b64encode [a] = [b64_char (drop_bit 2 a), b64_char (push_bit 4 (a AND 3)), 61, 61]"
| "b64encode [] = []"

section \<open>PyCryptodome: SHA-256, HMAC and PBKDF2\<close>

text \<open>
  \<^verbatim>\<open>Crypto.Hash.SHA256\<close>, the hash of FIPS 180-4, on byte sequences. Words are 32 bits,
  big-endian; addition wraps.
\<close>

type_synonym word32 = "32 word"

definition word32_of_bytes :: "bytes \<Rightarrow> word32" where
  "word32_of_bytes bs = foldl (\<lambda>w b. push_bit 8 w OR ucast b) 0 bs"

definition bytes_of_word32 :: "word32 \<Rightarrow> bytes" where
  "bytes_of_word32 w = [ucast (drop_bit 24 w), ucast (drop_bit 16 w), ucast (drop_bit 8 w), ucast w]"

definition bytes_of_word64 :: "64 word \<Rightarrow> bytes" where
  "bytes_of_word64 w = map (\<lambda>i. ucast (drop_bit (8 * (7 - i)) w)) [0..<8]"

text \<open>Consecutive pieces of \<open>n\<close> elements; a shorter rest is left out.\<close>

definition chunks :: "nat \<Rightarrow> 'a list \<Rightarrow> 'a list list" where
  "chunks n xs = map (\<lambda>i. take n (drop (i * n) xs)) [0..<length xs div n]"

text \<open>
  The round constants are the first 32 bits of the fractional parts of the cube roots of
  the first 64 primes: for a prime \<open>p\<close> that is the integer cube root of \<open>p * 2^96\<close>,
  reduced modulo \<open>2^32\<close>. \<open>icbrt\<close> builds the root bit by bit from the top.
\<close>

definition icbrt :: "int \<Rightarrow> int" where
  "icbrt n = foldl (\<lambda>r b. if (r + 2 ^ b) ^ 3 \<le> n then r + 2 ^ b else r) 0 (rev [0..<40])"

definition first_primes :: "int list" where
  "first_primes = [
     2, 3, 5, 7, 11, 13, 17, 19, 23, 29, 31, 37, 41, 43, 47, 53,
     59, 61, 67, 71, 73, 79, 83, 89, 97, 101, 103, 107, 109, 113, 127, 131,
     137, 139, 149, 151, 157, 163, 167, 173, 179, 181, 191, 193, 197, 199, 211, 223,
     227, 229, 233, 239, 241, 251, 257, 263, 269, 271, 277, 281, 283, 293, 307, 311]"

definition K256 :: "word32 list" where
  "K256 = map (\<lambda>p. word_of_int (icbrt (p * 2 ^ 96))) first_primes"

text \<open>The integer cube roots themselves, as \<open>icbrt\<close> computes them (proved below).\<close>

definition cube_roots :: "int list" where
  "cube_roots = [
     5411319704, 6194414737, 7344290767, 8215976869, 9551921755, 10098905585,
     11043570340, 11460697813, 12214315672, 13195500289, 13492127166, 14311783875,
     14809980276, 15046980094, 15499789991, 16133124468, 16720292289, 16907126662,
     17444216262, 17784676812, 17950125167, 18429019306, 18734950876, 19175934170,
     19734090066, 20001703533, 20132865992, 20390182855, 20516441075, 20764397895,
     21588763473, 21813078375, 22141143685, 22248366392, 22769593852, 22871018771,
     23170020180, 23461497531, 23651862830, 23931792517, 24205322401, 24295138891,
     24734567280, 24820601251, 24990902297, 25075189284, 25569408389, 26045227120,
     26200031510, 26276752392, 26428864332, 26653801653, 26727943347, 27092625994,
     27306805839, 27517677555, 27725365998, 27793908591, 27997534228, 28131656200,
     28198240250, 28526537963, 28973835255, 29099129074]"

type_synonym sha_state =
  "word32 \<times> word32 \<times> word32 \<times> word32 \<times> word32 \<times> word32 \<times> word32 \<times> word32"

definition sha_H0 :: sha_state where
  "sha_H0 = (0x6a09e667, 0xbb67ae85, 0x3c6ef372, 0xa54ff53a,
             0x510e527f, 0x9b05688c, 0x1f83d9ab, 0x5be0cd19)"

definition rotr :: "nat \<Rightarrow> word32 \<Rightarrow> word32" where
  "rotr n w = drop_bit n w OR push_bit (32 - n) w"

definition sha_ch :: "word32 \<Rightarrow> word32 \<Rightarrow> word32 \<Rightarrow> word32" where
  "sha_ch x y z = (x AND y) XOR (NOT x AND z)"

definition sha_maj :: "word32 \<Rightarrow> word32 \<Rightarrow> word32 \<Rightarrow> word32" where
  "sha_maj x y z = (x AND y) XOR (x AND z) XOR (y AND z)"

definition big_sigma0 :: "word32 \<Rightarrow> word32" where
  "big_sigma0 x = rotr 2 x XOR rotr 13 x XOR rotr 22 x"

definition big_sigma1 :: "word32 \<Rightarrow> word32" where
  "big_sigma1 x = rotr 6 x XOR rotr 11 x XOR rotr 25 x"

definition small_sigma0 :: "word32 \<Rightarrow> word32" where
  "small_sigma0 x = rotr 7 x XOR rotr 18 x XOR drop_bit 3 x"

definition small_sigma1 :: "word32 \<Rightarrow> word32" where
  "small_sigma1 x = rotr 17 x XOR rotr 19 x XOR drop_bit 10 x"

text \<open>The message schedule: \<open>n\<close> more words after the ones in \<open>w\<close>.\<close>

fun sha_schedule :: "nat \<Rightarrow> word32 list \<Rightarrow> word32 list" where
  "sha_schedule 0 w = w"
| "sha_schedule (Suc n) w =
     (let t = length w
      in sha_schedule n
           (w @ [small_sigma1 (w ! (t - 2)) + w ! (t - 7) + small_sigma0 (w ! (t - 15))
                 + w ! (t - 16)]))"

fun sha_round :: "sha_state \<Rightarrow> word32 \<times> word32 \<Rightarrow> sha_state" where
  "sha_round (a, b, c, d, e, f, g, h) (k, w) =
     (let t1 = h + big_sigma1 e + sha_ch e f g + k + w;
          t2 = big_sigma0 a + sha_maj a b c
      in (t1 + t2, a, b, c, d + t1, e, f, g))"

fun sha_add :: "sha_state \<Rightarrow> sha_state \<Rightarrow> sha_state" where
  "sha_add (a, b, c, d, e, f, g, h) (a', b', c', d', e', f', g', h') =
     (a + a', b + b', c + c', d + d', e + e', f + f', g + g', h + h')"

definition sha_compress :: "sha_state \<Rightarrow> bytes \<Rightarrow> sha_state" where
  "sha_compress H block =
     sha_add H (foldl sha_round H (zip K256 (sha_schedule 48 (map word32_of_bytes (chunks 4 block)))))"

definition sha_pad :: "bytes \<Rightarrow> bytes" where
  "sha_pad m =
     m @ [0x80] @ replicate ((119 - length m mod 64) mod 64) 0
       @ bytes_of_word64 (of_nat (8 * length m))"

fun sha_output :: "sha_state \<Rightarrow> bytes" where
  "sha_output (a, b, c, d, e, f, g, h) = concat (map bytes_of_word32 [a, b, c, d, e, f, g, h])"

definition sha256 :: "bytes \<Rightarrow> bytes" where
  "sha256 m = sha_output (foldl sha_compress sha_H0 (chunks 64 (sha_pad m)))"

text \<open>
  A hash module as PyCryptodome passes it around: the digest function with its block and
  digest sizes. \<open>SHA256\<close> is the module the source imports.
\<close>

record hash_module =
  digest :: "bytes \<Rightarrow> bytes"
  block_size :: nat
  digest_size :: nat

definition SHA256 :: hash_module where
  "SHA256 = \<lparr>digest = sha256, block_size = 64, digest_size = 32\<rparr>"

text \<open>
  HMAC (RFC 2104): a key longer than a block is hashed first, a shorter one is filled with
  zero bytes up to the block size.
\<close>

definition hmac_key :: "hash_module \<Rightarrow> bytes \<Rightarrow> bytes" where
  "hmac_key h key =
     (let k = (if block_size h < length key then digest h key else key)
      in k @ replicate (block_size h - length k) 0)"

definition hmac :: "hash_module \<Rightarrow> bytes \<Rightarrow> bytes \<Rightarrow> bytes" where
  "hmac h key msg =
     digest h (map (\<lambda>b. b XOR 0x5c) (hmac_key h key)
               @ digest h (map (\<lambda>b. b XOR 0x36) (hmac_key h key) @ msg))"

definition xor_bytes :: "bytes \<Rightarrow> bytes \<Rightarrow> bytes" where
  "xor_bytes xs ys = map2 (XOR) xs ys"

text \<open>
  \<^verbatim>\<open>Crypto.Protocol.KDF.PBKDF2(password, salt, dkLen, count, hmac_hash_module)\<close>, the
  function of RFC 8018: block \<open>i\<close> is the exclusive or of \<open>count\<close> chained HMAC values, the
  first one of the salt followed by \<open>i\<close> as four big-endian bytes; the key is the first
  \<open>dkLen\<close> bytes of the blocks 1, 2, ...
\<close>

fun pbkdf2_chain :: "hash_module \<Rightarrow> bytes \<Rightarrow> nat \<Rightarrow> bytes \<Rightarrow> bytes \<Rightarrow> bytes" where
  "pbkdf2_chain h password 0 u acc = acc"
| "pbkdf2_chain h password (Suc n) u acc =
     (let u' = hmac h password u in pbkdf2_chain h password n u' (xor_bytes acc u'))"

definition pbkdf2_block :: "hash_module \<Rightarrow> bytes \<Rightarrow> bytes \<Rightarrow> nat \<Rightarrow> nat \<Rightarrow> bytes" where
  "pbkdf2_block h password salt count i =
     (let u1 = hmac h password (salt @ bytes_of_word32 (of_nat i))
      in pbkdf2_chain h password (count - 1) u1 u1)"

definition PBKDF2 :: "bytes \<Rightarrow> bytes \<Rightarrow> nat \<Rightarrow> nat \<Rightarrow> hash_module \<Rightarrow> bytes" where
  "PBKDF2 password salt dkLen count hmac_hash_module =
     take dkLen
       (concat (map (pbkdf2_block hmac_hash_module password salt count)
          [1..<Suc ((dkLen + digest_size hmac_hash_module - 1) div digest_size hmac_hash_module)]))"

section \<open>The reference of the specification for the key derivation\<close>

text \<open>
  Step 1 of the specification names the key derivation: PBKDF2 with HMAC-SHA256. This is
  that function written from its two defining documents, independently of the model of
  PyCryptodome's functions above, for \<^verbatim>\<open>derive_key\<close> to be compared with. HMAC of RFC
  2104 over a hash \<open>H\<close> with block size \<open>B\<close>: the key, hashed if longer than \<open>B\<close>, is
  filled with zeros to \<open>B\<close> bytes, and the result is
  \<open>H (K' XOR opad, H (K' XOR ipad, text))\<close> with \<open>ipad\<close> the byte 36 and \<open>opad\<close> the
  byte 5C repeated \<open>B\<close> times. PBKDF2 of RFC 8018: \<open>U\<^sub>1 = PRF (P, S || INT (i))\<close>,
  \<open>U\<^sub>j = PRF (P, U\<^sub>j\<^sub>-\<^sub>1)\<close>, \<open>F (P, S, c, i) = U\<^sub>1 XOR ... XOR U\<^sub>c\<close>, and the key is
  the first \<open>dkLen\<close> bytes of \<open>F (P, S, c, 1) || F (P, S, c, 2) || ...\<close>
\<close>

definition hmac_rfc2104 :: "(bytes \<Rightarrow> bytes) \<Rightarrow> nat \<Rightarrow> bytes \<Rightarrow> bytes \<Rightarrow> bytes" where
  "hmac_rfc2104 H B K text =
     (let K0 = (if B < length K then H K else K);
          K' = K0 @ replicate (B - length K0) 0
      in H (map2 (XOR) K' (replicate B 0x5c) @ H (map2 (XOR) K' (replicate B 0x36) @ text)))"

fun rfc8018_U :: "(bytes \<Rightarrow> bytes \<Rightarrow> bytes) \<Rightarrow> bytes \<Rightarrow> bytes \<Rightarrow> nat \<Rightarrow> nat \<Rightarrow> bytes" where
  "rfc8018_U prf P S i 0 = []"
| "rfc8018_U prf P S i (Suc 0) = prf P (S @ bytes_of_word32 (of_nat i))"
| "rfc8018_U prf P S i (Suc (Suc j)) = prf P (rfc8018_U prf P S i (Suc j))"

definition rfc8018_F :: "(bytes \<Rightarrow> bytes \<Rightarrow> bytes) \<Rightarrow> bytes \<Rightarrow> bytes \<Rightarrow> nat \<Rightarrow> nat \<Rightarrow> bytes" where
  "rfc8018_F prf P S c i =
     foldl (map2 (XOR)) (rfc8018_U prf P S i 1) (map (rfc8018_U prf P S i) [2..<Suc c])"

definition pbkdf2_rfc8018 ::
  "(bytes \<Rightarrow> bytes \<Rightarrow> bytes) \<Rightarrow> nat \<Rightarrow> bytes \<Rightarrow> bytes \<Rightarrow> nat \<Rightarrow> nat \<Rightarrow> bytes" where
  "pbkdf2_rfc8018 prf hLen P S c dkLen =
     take dkLen (concat (map (rfc8018_F prf P S c) [1..<Suc ((dkLen + hLen - 1) div hLen)]))"

definition reference_pbkdf2_hmac_sha256 :: "bytes \<Rightarrow> bytes \<Rightarrow> nat \<Rightarrow> nat \<Rightarrow> bytes" where
  "reference_pbkdf2_hmac_sha256 P S c dkLen = pbkdf2_rfc8018 (hmac_rfc2104 sha256 64) 32 P S c dkLen"

section \<open>PyCryptodome: AES in CBC mode\<close>

subsection \<open>The block cipher (FIPS 197)\<close>

definition SBOX :: "byte list" where
  "SBOX = [
    0x63, 0x7c, 0x77, 0x7b, 0xf2, 0x6b, 0x6f, 0xc5, 0x30, 0x01, 0x67, 0x2b, 0xfe, 0xd7, 0xab, 0x76,
    0xca, 0x82, 0xc9, 0x7d, 0xfa, 0x59, 0x47, 0xf0, 0xad, 0xd4, 0xa2, 0xaf, 0x9c, 0xa4, 0x72, 0xc0,
    0xb7, 0xfd, 0x93, 0x26, 0x36, 0x3f, 0xf7, 0xcc, 0x34, 0xa5, 0xe5, 0xf1, 0x71, 0xd8, 0x31, 0x15,
    0x04, 0xc7, 0x23, 0xc3, 0x18, 0x96, 0x05, 0x9a, 0x07, 0x12, 0x80, 0xe2, 0xeb, 0x27, 0xb2, 0x75,
    0x09, 0x83, 0x2c, 0x1a, 0x1b, 0x6e, 0x5a, 0xa0, 0x52, 0x3b, 0xd6, 0xb3, 0x29, 0xe3, 0x2f, 0x84,
    0x53, 0xd1, 0x00, 0xed, 0x20, 0xfc, 0xb1, 0x5b, 0x6a, 0xcb, 0xbe, 0x39, 0x4a, 0x4c, 0x58, 0xcf,
    0xd0, 0xef, 0xaa, 0xfb, 0x43, 0x4d, 0x33, 0x85, 0x45, 0xf9, 0x02, 0x7f, 0x50, 0x3c, 0x9f, 0xa8,
    0x51, 0xa3, 0x40, 0x8f, 0x92, 0x9d, 0x38, 0xf5, 0xbc, 0xb6, 0xda, 0x21, 0x10, 0xff, 0xf3, 0xd2,
    0xcd, 0x0c, 0x13, 0xec, 0x5f, 0x97, 0x44, 0x17, 0xc4, 0xa7, 0x7e, 0x3d, 0x64, 0x5d, 0x19, 0x73,
    0x60, 0x81, 0x4f, 0xdc, 0x22, 0x2a, 0x90, 0x88, 0x46, 0xee, 0xb8, 0x14, 0xde, 0x5e, 0x0b, 0xdb,
    0xe0, 0x32, 0x3a, 0x0a, 0x49, 0x06, 0x24, 0x5c, 0xc2, 0xd3, 0xac, 0x62, 0x91, 0x95, 0xe4, 0x79,
    0xe7, 0xc8, 0x37, 0x6d, 0x8d, 0xd5, 0x4e, 0xa9, 0x6c, 0x56, 0xf4, 0xea, 0x65, 0x7a, 0xae, 0x08,
    0xba, 0x78, 0x25, 0x2e, 0x1c, 0xa6, 0xb4, 0xc6, 0xe8, 0xdd, 0x74, 0x1f, 0x4b, 0xbd, 0x8b, 0x8a,
    0x70, 0x3e, 0xb5, 0x66, 0x48, 0x03, 0xf6, 0x0e, 0x61, 0x35, 0x57, 0xb9, 0x86, 0xc1, 0x1d, 0x9e,
    0xe1, 0xf8, 0x98, 0x11, 0x69, 0xd9, 0x8e, 0x94, 0x9b, 0x1e, 0x87, 0xe9, 0xce, 0x55, 0x28, 0xdf,
    0x8c, 0xa1, 0x89, 0x0d, 0xbf, 0xe6, 0x42, 0x68, 0x41, 0x99, 0x2d, 0x0f, 0xb0, 0x54, 0xbb, 0x16]"

definition INV_SBOX :: "byte list" where
  "INV_SBOX = [
    0x52, 0x09, 0x6a, 0xd5, 0x30, 0x36, 0xa5, 0x38, 0xbf, 0x40, 0xa3, 0x9e, 0x81, 0xf3, 0xd7, 0xfb,
    0x7c, 0xe3, 0x39, 0x82, 0x9b, 0x2f, 0xff, 0x87, 0x34, 0x8e, 0x43, 0x44, 0xc4, 0xde, 0xe9, 0xcb,
    0x54, 0x7b, 0x94, 0x32, 0xa6, 0xc2, 0x23, 0x3d, 0xee, 0x4c, 0x95, 0x0b, 0x42, 0xfa, 0xc3, 0x4e,
    0x08, 0x2e, 0xa1, 0x66, 0x28, 0xd9, 0x24, 0xb2, 0x76, 0x5b, 0xa2, 0x49, 0x6d, 0x8b, 0xd1, 0x25,
    0x72, 0xf8, 0xf6, 0x64, 0x86, 0x68, 0x98, 0x16, 0xd4, 0xa4, 0x5c, 0xcc, 0x5d, 0x65, 0xb6, 0x92,
    0x6c, 0x70, 0x48, 0x50, 0xfd, 0xed, 0xb9, 0xda, 0x5e, 0x15, 0x46, 0x57, 0xa7, 0x8d, 0x9d, 0x84,
    0x90, 0xd8, 0xab, 0x00, 0x8c, 0xbc, 0xd3, 0x0a, 0xf7, 0xe4, 0x58, 0x05, 0xb8, 0xb3, 0x45, 0x06,
    0xd0, 0x2c, 0x1e, 0x8f, 0xca, 0x3f, 0x0f, 0x02, 0xc1, 0xaf, 0xbd, 0x03, 0x01, 0x13, 0x8a, 0x6b,
    0x3a, 0x91, 0x11, 0x41, 0x4f, 0x67, 0xdc, 0xea, 0x97, 0xf2, 0xcf, 0xce, 0xf0, 0xb4, 0xe6, 0x73,
    0x96, 0xac, 0x74, 0x22, 0xe7, 0xad, 0x35, 0x85, 0xe2, 0xf9, 0x37, 0xe8, 0x1c, 0x75, 0xdf, 0x6e,
    0x47, 0xf1, 0x1a, 0x71, 0x1d, 0x29, 0xc5, 0x89, 0x6f, 0xb7, 0x62, 0x0e, 0xaa, 0x18, 0xbe, 0x1b,
    0xfc, 0x56, 0x3e, 0x4b, 0xc6, 0xd2, 0x79, 0x20, 0x9a, 0xdb, 0xc0, 0xfe, 0x78, 0xcd, 0x5a, 0xf4,
    0x1f, 0xdd, 0xa8, 0x33, 0x88, 0x07, 0xc7, 0x31, 0xb1, 0x12, 0x10, 0x59, 0x27, 0x80, 0xec, 0x5f,
    0x60, 0x51, 0x7f, 0xa9, 0x19, 0xb5, 0x4a, 0x0d, 0x2d, 0xe5, 0x7a, 0x9f, 0x93, 0xc9, 0x9c, 0xef,
    0xa0, 0xe0, 0x3b, 0x4d, 0xae, 0x2a, 0xf5, 0xb0, 0xc8, 0xeb, 0xbb, 0x3c, 0x83, 0x53, 0x99, 0x61,
    0x17, 0x2b, 0x04, 0x7e, 0xba, 0x77, 0xd6, 0x26, 0xe1, 0x69, 0x14, 0x63, 0x55, 0x21, 0x0c, 0x7d]"

definition sbox :: "byte \<Rightarrow> byte" where
  "sbox b = SBOX ! unat b"

definition inv_sbox :: "byte \<Rightarrow> byte" where
  "inv_sbox b = INV_SBOX ! unat b"

text \<open>Multiplication in GF(2^8) by the constants of MixColumns and InvMixColumns.\<close>

definition xtime :: "byte \<Rightarrow> byte" where
  "xtime b = push_bit 1 b XOR (if bit b 7 then 0x1b else 0)"

definition gmul3 :: "byte \<Rightarrow> byte" where
  "gmul3 b = xtime b XOR b"

definition gmul9 :: "byte \<Rightarrow> byte" where
  "gmul9 b = xtime (xtime (xtime b)) XOR b"

definition gmul11 :: "byte \<Rightarrow> byte" where
  "gmul11 b = xtime (xtime (xtime b)) XOR xtime b XOR b"

definition gmul13 :: "byte \<Rightarrow> byte" where
  "gmul13 b = xtime (xtime (xtime b)) XOR xtime (xtime b) XOR b"

definition gmul14 :: "byte \<Rightarrow> byte" where
  "gmul14 b = xtime (xtime (xtime b)) XOR xtime (xtime b) XOR xtime b"

fun mix_column :: "bytes \<Rightarrow> bytes" where
  "mix_column [a, b, c, d] =
     [xtime a XOR gmul3 b XOR c XOR d,
      a XOR xtime b XOR gmul3 c XOR d,
      a XOR b XOR xtime c XOR gmul3 d,
      gmul3 a XOR b XOR c XOR xtime d]"
| "mix_column col = col"

fun inv_mix_column :: "bytes \<Rightarrow> bytes" where
  "inv_mix_column [a, b, c, d] =
     [gmul14 a XOR gmul11 b XOR gmul13 c XOR gmul9 d,
      gmul9 a XOR gmul14 b XOR gmul11 c XOR gmul13 d,
      gmul13 a XOR gmul9 b XOR gmul14 c XOR gmul11 d,
      gmul11 a XOR gmul13 b XOR gmul9 c XOR gmul14 d]"
| "inv_mix_column col = col"

text \<open>
  The state is the 16 bytes of a block in input order, that is column by column: the byte
  of row \<open>r\<close> and column \<open>c\<close> is at index \<open>r + 4 * c\<close>.
\<close>

definition sub_bytes :: "bytes \<Rightarrow> bytes" where
  "sub_bytes s = map sbox s"

definition inv_sub_bytes :: "bytes \<Rightarrow> bytes" where
  "inv_sub_bytes s = map inv_sbox s"

definition shift_rows :: "bytes \<Rightarrow> bytes" where
  "shift_rows s = map ((!) s) [0, 5, 10, 15, 4, 9, 14, 3, 8, 13, 2, 7, 12, 1, 6, 11]"

definition inv_shift_rows :: "bytes \<Rightarrow> bytes" where
  "inv_shift_rows s = map ((!) s) [0, 13, 10, 7, 4, 1, 14, 11, 8, 5, 2, 15, 12, 9, 6, 3]"

definition mix_columns :: "bytes \<Rightarrow> bytes" where
  "mix_columns s = concat (map mix_column (chunks 4 s))"

definition inv_mix_columns :: "bytes \<Rightarrow> bytes" where
  "inv_mix_columns s = concat (map inv_mix_column (chunks 4 s))"

definition add_round_key :: "bytes \<Rightarrow> bytes \<Rightarrow> bytes" where
  "add_round_key k s = xor_bytes s k"

text \<open>Key expansion, for a key of \<open>Nk\<close> words of four bytes (\<open>Nk\<close> is 8 for AES-256).\<close>

fun rot_word :: "bytes \<Rightarrow> bytes" where
  "rot_word (a # r) = r @ [a]"
| "rot_word [] = []"

definition rcon :: "nat \<Rightarrow> bytes" where
  "rcon i = [(xtime ^^ (i - 1)) 1, 0, 0, 0]"

fun key_schedule :: "nat \<Rightarrow> nat \<Rightarrow> bytes list \<Rightarrow> bytes list" where
  "key_schedule Nk 0 w = w"
| "key_schedule Nk (Suc n) w =
     (let i = length w;
          temp = last w;
          temp' = (if i mod Nk = 0 then xor_bytes (map sbox (rot_word temp)) (rcon (i div Nk))
                   else if 6 < Nk \<and> i mod Nk = 4 then map sbox temp
                   else temp)
      in key_schedule Nk n (w @ [xor_bytes (w ! (i - Nk)) temp']))"

text \<open>The round keys, 16 bytes each: \<open>Nk + 7\<close> of them.\<close>

definition key_expansion :: "bytes \<Rightarrow> bytes list" where
  "key_expansion key =
     (let Nk = length key div 4
      in map concat (chunks 4 (key_schedule Nk (4 * (Nk + 7) - Nk) (chunks 4 key))))"

definition aes_round :: "bytes \<Rightarrow> bytes \<Rightarrow> bytes" where
  "aes_round k s = add_round_key k (mix_columns (shift_rows (sub_bytes s)))"

definition aes_inv_round :: "bytes \<Rightarrow> bytes \<Rightarrow> bytes" where
  "aes_inv_round k s = inv_mix_columns (add_round_key k (inv_sub_bytes (inv_shift_rows s)))"

definition aes_encrypt_block :: "bytes list \<Rightarrow> bytes \<Rightarrow> bytes" where
  "aes_encrypt_block rks s =
     (case rks of
        [] \<Rightarrow> s
      | k0 # ks \<Rightarrow>
          add_round_key (last ks)
            (shift_rows (sub_bytes (fold aes_round (butlast ks) (add_round_key k0 s)))))"

definition aes_decrypt_block :: "bytes list \<Rightarrow> bytes \<Rightarrow> bytes" where
  "aes_decrypt_block rks s =
     (case rks of
        [] \<Rightarrow> s
      | k0 # ks \<Rightarrow>
          add_round_key k0
            (inv_sub_bytes (inv_shift_rows
               (fold aes_inv_round (rev (butlast ks)) (add_round_key (last ks) s)))))"

subsection \<open>The cipher object of \<^verbatim>\<open>AES.new(key, AES.MODE_CBC, iv)\<close>\<close>

record cbc_cipher =
  cipher_keys :: "bytes list"
  cipher_iv :: bytes

definition AES_new_CBC :: "bytes \<Rightarrow> bytes \<Rightarrow> error + cbc_cipher" where
  "AES_new_CBC key iv =
     (if (length key \<noteq> 16 \<and> length key \<noteq> 24 \<and> length key \<noteq> 32) \<or> length iv \<noteq> 16
      then Inl CipherSetupError
      else Inr \<lparr>cipher_keys = key_expansion key, cipher_iv = iv\<rparr>)"

fun cbc_decrypt_blocks :: "bytes list \<Rightarrow> bytes \<Rightarrow> bytes list \<Rightarrow> bytes" where
  "cbc_decrypt_blocks rks prev [] = []"
| "cbc_decrypt_blocks rks prev (c # cs) =
     xor_bytes (aes_decrypt_block rks c) prev @ cbc_decrypt_blocks rks c cs"

fun cbc_encrypt_blocks :: "bytes list \<Rightarrow> bytes \<Rightarrow> bytes list \<Rightarrow> bytes" where
  "cbc_encrypt_blocks rks prev [] = []"
| "cbc_encrypt_blocks rks prev (p # ps) =
     (let c = aes_encrypt_block rks (xor_bytes p prev) in c @ cbc_encrypt_blocks rks c ps)"

text \<open>
  \<^verbatim>\<open>cipher.decrypt(data)\<close> and \<^verbatim>\<open>cipher.encrypt(data)\<close>: a ValueError unless the length of
  the data is a multiple of the block size.
\<close>

definition cipher_decrypt :: "cbc_cipher \<Rightarrow> bytes \<Rightarrow> error + bytes" where
  "cipher_decrypt cipher data =
     (if length data mod 16 \<noteq> 0 then Inl CipherLengthError
      else Inr (cbc_decrypt_blocks (cipher_keys cipher) (cipher_iv cipher) (chunks 16 data)))"

definition cipher_encrypt :: "cbc_cipher \<Rightarrow> bytes \<Rightarrow> error + bytes" where
  "cipher_encrypt cipher data =
     (if length data mod 16 \<noteq> 0 then Inl CipherLengthError
      else Inr (cbc_encrypt_blocks (cipher_keys cipher) (cipher_iv cipher) (chunks 16 data)))"

section \<open>The program: \<^verbatim>\<open>decrypt_backup.py\<close>\<close>

definition KEY_LENGTH :: nat where
  "KEY_LENGTH = 32"

definition IV_LENGTH :: nat where
  "IV_LENGTH = 16"

definition SALT_LENGTH :: nat where
  "SALT_LENGTH = 32"

definition ITERATION_COUNT :: nat where
  "ITERATION_COUNT = 100000"

text \<open>\<^verbatim>\<open>derive_key(password, salt)\<close>, lines 22 to 30.\<close>

definition derive_key :: "pystr \<Rightarrow> bytes \<Rightarrow> error + bytes" where
  "derive_key password salt =
     (case utf8_encode password of
        None \<Rightarrow> Inl UnicodeEncodeError
      | Some pw \<Rightarrow> Inr (PBKDF2 pw salt KEY_LENGTH ITERATION_COUNT SHA256))"

text \<open>
  \<^verbatim>\<open>decrypt(encrypted_data_b64, password)\<close>, lines 32 to 56, in the three steps the claims
  speak of. \<open>decrypt_container\<close> is lines 35 to 43: the values of \<^verbatim>\<open>salt\<close>, \<^verbatim>\<open>iv\<close> and
  \<^verbatim>\<open>encrypted\<close>.
\<close>

definition decrypt_container :: "pystr \<Rightarrow> error + (bytes \<times> bytes \<times> bytes)" where
  "decrypt_container encrypted_data_b64 =
     (case b64decode encrypted_data_b64 of
        None \<Rightarrow> Inl Base64Error
      | Some combined \<Rightarrow>
          if length combined < SALT_LENGTH + IV_LENGTH then Inl InvalidFormat
          else Inr (py_slice combined 0 SALT_LENGTH,
                    py_slice combined SALT_LENGTH (SALT_LENGTH + IV_LENGTH),
                    drop (SALT_LENGTH + IV_LENGTH) combined))"

text \<open>Lines 35 to 50: the value of \<^verbatim>\<open>decrypted_data\<close> after \<^verbatim>\<open>cipher.decrypt\<close>.\<close>

definition decrypted_data :: "pystr \<Rightarrow> pystr \<Rightarrow> error + bytes" where
  "decrypted_data encrypted_data_b64 password =
     (case decrypt_container encrypted_data_b64 of
        Inl e \<Rightarrow> Inl e
      | Inr (salt, iv, encrypted) \<Rightarrow>
          (case derive_key password salt of
             Inl e \<Rightarrow> Inl e
           | Inr key \<Rightarrow>
               (case AES_new_CBC key iv of
                  Inl e \<Rightarrow> Inl e
                | Inr cipher \<Rightarrow> cipher_decrypt cipher encrypted)))"

text \<open>Lines 53 to 56 on that buffer: the padding is removed and the rest decoded.\<close>

definition remove_padding :: "bytes \<Rightarrow> error + pystr" where
  "remove_padding data =
     (case py_last data of
        Inl e \<Rightarrow> Inl e
      | Inr padding_length \<Rightarrow>
          (case utf8_decode (py_slice_to data (- int (unat padding_length))) of
             None \<Rightarrow> Inl UnicodeDecodeError
           | Some s \<Rightarrow> Inr s))"

definition decrypt :: "pystr \<Rightarrow> pystr \<Rightarrow> error + pystr" where
  "decrypt encrypted_data_b64 password =
     (case decrypted_data encrypted_data_b64 password of
        Inl e \<Rightarrow> Inl e
      | Inr data \<Rightarrow> remove_padding data)"

section \<open>The producer of a backup\<close>

text \<open>
  Modelled from the spec: the encryption that produces a backup is not part of
  \<^verbatim>\<open>decrypt_backup.py\<close> (the source names \<^verbatim>\<open>BackupEncryption.kt\<close>). The specification
  describes it as the matching reference encryption: the key from PBKDF2-HMAC-SHA256 with
  100,000 iterations and 32 bytes, AES-256 in CBC mode over the PKCS#7-padded UTF-8 text,
  and the Base64 encoding of salt, IV and ciphertext in this order.
\<close>

definition pkcs7_pad :: "bytes \<Rightarrow> bytes" where
  "pkcs7_pad m = m @ replicate (16 - length m mod 16) (of_nat (16 - length m mod 16))"

definition reference_encrypt_bytes :: "bytes \<Rightarrow> pystr \<Rightarrow> bytes \<Rightarrow> bytes \<Rightarrow> error + pystr" where
  "reference_encrypt_bytes data password salt iv =
     (case utf8_encode password of
        None \<Rightarrow> Inl UnicodeEncodeError
      | Some pw \<Rightarrow>
          (case AES_new_CBC (PBKDF2 pw salt 32 100000 SHA256) iv of
             Inl e \<Rightarrow> Inl e
           | Inr cipher \<Rightarrow>
               (case cipher_encrypt cipher data of
                  Inl e \<Rightarrow> Inl e
                | Inr ct \<Rightarrow> Inr (b64encode (salt @ iv @ ct)))))"

definition reference_encrypt :: "pystr \<Rightarrow> pystr \<Rightarrow> bytes \<Rightarrow> bytes \<Rightarrow> error + pystr" where
  "reference_encrypt plaintext password salt iv =
     (case utf8_encode plaintext of
        None \<Rightarrow> Inl UnicodeEncodeError
      | Some data \<Rightarrow> reference_encrypt_bytes (pkcs7_pad data) password salt iv)"

section \<open>The error taxonomy of the specification and sample containers\<close>

text \<open>
  The specification names the failures of the decoding step MalformedContainer: in the
  source these are the exception of \<^verbatim>\<open>base64.b64decode\<close> (line 35) and the ValueError of
  line 38. Its InvalidCiphertextLength is the ValueError of \<^verbatim>\<open>cipher.decrypt\<close>
  (\<open>CipherLengthError\<close>), its TextDecodingFailure is \<open>UnicodeDecodeError\<close>.
\<close>

definition MalformedContainer :: "error \<Rightarrow> bool" where
  "MalformedContainer e = (e = Base64Error \<or> e = InvalidFormat)"

text \<open>
  Containers used as concrete inputs: the Base64 text of the bytes 0, 1, ..., n - 1 for
  n = 66, 10, 48 and 51.
\<close>

definition sample_payload :: pystr where
  "sample_payload = text_of ''AAECAwQFBgcICQoLDA0ODxAREhMUFRYXGBkaGxwdHh8gISIjJCUmJygpKissLS4vMDEyMzQ1Njc4OTo7PD0+P0BB''"

definition short_payload :: pystr where
  "short_payload = text_of ''AAECAwQFBgcICQ==''"

definition boundary_payload :: pystr where
  "boundary_payload = text_of ''AAECAwQFBgcICQoLDA0ODxAREhMUFRYXGBkaGxwdHh8gISIjJCUmJygpKissLS4v''"

definition misaligned_payload :: pystr where
  "misaligned_payload = text_of ''AAECAwQFBgcICQoLDA0ODxAREhMUFRYXGBkaGxwdHh8gISIjJCUmJygpKissLS4vMDEy''"

text \<open>
  The scenario of the specification: the passphrase \<^verbatim>\<open>correct horse\<close>, a salt of 32
  bytes 01 and an IV of 16 bytes 02. \<open>sample_container data\<close> is the backup the producer
  makes of the byte sequence \<open>data\<close> (already padded, or any other multiple of 16 bytes)
  under this passphrase, salt and IV.
\<close>

definition sample_password :: pystr where
  "sample_password = text_of ''correct horse''"

definition sample_salt :: bytes where
  "sample_salt = replicate 32 1"

definition sample_iv :: bytes where
  "sample_iv = replicate 16 2"

definition sample_container :: "bytes \<Rightarrow> pystr" where
  "sample_container data =
     (case reference_encrypt_bytes data sample_password sample_salt sample_iv of
        Inr c \<Rightarrow> c
      | Inl e \<Rightarrow> [])"

text \<open>
  Decrypted buffers used as concrete inputs, 16 bytes each: the padded text \<^verbatim>\<open>[]\<close>, and
  the text \<^verbatim>\<open>[]\<close> followed by spaces and a last byte of 3 (after 1 and 2), of 17, of 255
  and of 0.
\<close>

definition padded_empty_array :: bytes where
  "padded_empty_array = [0x5b, 0x5d, 14, 14, 14, 14, 14, 14, 14, 14, 14, 14, 14, 14, 14, 14]"

definition lax_padding_buffer :: bytes where
  "lax_padding_buffer = [0x5b, 0x5d, 0x20, 0x20, 0x20, 0x20, 0x20, 0x20, 0x20, 0x20, 0x20, 0x20,
                         0x20, 1, 2, 3]"

definition overlong_padding_buffer :: bytes where
  "overlong_padding_buffer = [0x5b, 0x5d, 0x20, 0x20, 0x20, 0x20, 0x20, 0x20, 0x20, 0x20, 0x20,
                              0x20, 0x20, 0x20, 0x20, 17]"

definition full_padding_buffer :: bytes where
  "full_padding_buffer = [0x5b, 0x5d, 0x20, 0x20, 0x20, 0x20, 0x20, 0x20, 0x20, 0x20, 0x20,
                          0x20, 0x20, 0x20, 0x20, 0xff]"

definition zero_padding_buffer :: bytes where
  "zero_padding_buffer = [0x5b, 0x5d, 0x20, 0x20, 0x20, 0x20, 0x20, 0x20, 0x20, 0x20, 0x20,
                          0x20, 0x20, 0x20, 0x20, 0]"

text \<open>
  The published test vector of PBKDF2 with HMAC-SHA256 for the password \<^verbatim>\<open>password\<close> and
  the salt \<^verbatim>\<open>salt\<close> at 32 bytes: \<open>vector_U1\<close> is the key after one iteration and
  \<open>vector_key\<close> the key after two. The other constants are the values in between: the
  key block under the inner and the outer pad and the two inner digests.
\<close>

definition vector_password :: bytes where
  "vector_password = [0x70, 0x61, 0x73, 0x73, 0x77, 0x6f, 0x72, 0x64]"

definition vector_salt :: bytes where
  "vector_salt = [0x73, 0x61, 0x6c, 0x74]"

definition vector_ipad_key :: bytes where
  "vector_ipad_key = [0x46, 0x57, 0x45, 0x45, 0x41, 0x59, 0x44, 0x52, 0x36, 0x36, 0x36, 0x36, 0x36, 0x36, 0x36, 0x36,
     0x36, 0x36, 0x36, 0x36, 0x36, 0x36, 0x36, 0x36, 0x36, 0x36, 0x36, 0x36, 0x36, 0x36, 0x36, 0x36,
     0x36, 0x36, 0x36, 0x36, 0x36, 0x36, 0x36, 0x36, 0x36, 0x36, 0x36, 0x36, 0x36, 0x36, 0x36, 0x36,
     0x36, 0x36, 0x36, 0x36, 0x36, 0x36, 0x36, 0x36, 0x36, 0x36, 0x36, 0x36, 0x36, 0x36, 0x36, 0x36]"

definition vector_opad_key :: bytes where
  "vector_opad_key = [0x2c, 0x3d, 0x2f, 0x2f, 0x2b, 0x33, 0x2e, 0x38, 0x5c, 0x5c, 0x5c, 0x5c, 0x5c, 0x5c, 0x5c, 0x5c,
     0x5c, 0x5c, 0x5c, 0x5c, 0x5c, 0x5c, 0x5c, 0x5c, 0x5c, 0x5c, 0x5c, 0x5c, 0x5c, 0x5c, 0x5c, 0x5c,
     0x5c, 0x5c, 0x5c, 0x5c, 0x5c, 0x5c, 0x5c, 0x5c, 0x5c, 0x5c, 0x5c, 0x5c, 0x5c, 0x5c, 0x5c, 0x5c,
     0x5c, 0x5c, 0x5c, 0x5c, 0x5c, 0x5c, 0x5c, 0x5c, 0x5c, 0x5c, 0x5c, 0x5c, 0x5c, 0x5c, 0x5c, 0x5c]"

definition vector_inner1 :: bytes where
  "vector_inner1 = [0x33, 0xd6, 0xb3, 0x76, 0xf2, 0x3b, 0x38, 0xd9, 0x13, 0x91, 0xe4, 0xff, 0x8c, 0x67, 0x6d, 0xab,
     0xd2, 0xa6, 0x30, 0xd1, 0xac, 0x9f, 0x63, 0xe7, 0xb0, 0x9f, 0x35, 0xa2, 0x96, 0xf4, 0x46, 0x6e]"

definition vector_U1 :: bytes where
  "vector_U1 = [0x12, 0x0f, 0xb6, 0xcf, 0xfc, 0xf8, 0xb3, 0x2c, 0x43, 0xe7, 0x22, 0x52, 0x56, 0xc4, 0xf8, 0x37,
     0xa8, 0x65, 0x48, 0xc9, 0x2c, 0xcc, 0x35, 0x48, 0x08, 0x05, 0x98, 0x7c, 0xb7, 0x0b, 0xe1, 0x7b]"

definition vector_inner2 :: bytes where
  "vector_inner2 = [0xb5, 0x1c, 0xfb, 0x3b, 0x0a, 0x84, 0x20, 0xca, 0x32, 0x6e, 0x7b, 0x49, 0x8d, 0x79, 0xbe, 0x1e,
     0x03, 0x00, 0x14, 0x31, 0xe7, 0x7d, 0xf1, 0xe7, 0x78, 0x76, 0xcd, 0x10, 0x9a, 0x2c, 0x95, 0xe0]"

definition vector_U2 :: bytes where
  "vector_U2 = [0xbc, 0x42, 0xba, 0x5a, 0x53, 0x93, 0xf5, 0xff, 0x6e, 0xed, 0xfd, 0xab, 0x7e, 0x34, 0x95, 0xe7,
     0x82, 0x55, 0x77, 0x47, 0xdf, 0x0e, 0x64, 0x97, 0xde, 0xe7, 0x40, 0x26, 0x22, 0x4c, 0xad, 0x38]"

definition vector_key :: bytes where
  "vector_key = [0xae, 0x4d, 0x0c, 0x95, 0xaf, 0x6b, 0x46, 0xd3, 0x2d, 0x0a, 0xdf, 0xf9, 0x28, 0xf0, 0x6d, 0xd0,
     0x2a, 0x30, 0x3f, 0x8e, 0xf3, 0xc2, 0x51, 0xdf, 0xd6, 0xe2, 0xd8, 0x5a, 0x95, 0x47, 0x4c, 0x43]"

section \<open>The round constants of SHA-256\<close>

lemma icbrt_step:
  fixes r n :: int
  assumes "0 \<le> r" and "r ^ 3 \<le> n" and "n < (r + 2 ^ m) ^ 3"
  shows "0 \<le> foldl (\<lambda>r b. if (r + 2 ^ b) ^ 3 \<le> n then r + 2 ^ b else r) r (rev [0..<m])
         \<and> foldl (\<lambda>r b. if (r + 2 ^ b) ^ 3 \<le> n then r + 2 ^ b else r) r (rev [0..<m]) ^ 3 \<le> n
         \<and> n < (foldl (\<lambda>r b. if (r + 2 ^ b) ^ 3 \<le> n then r + 2 ^ b else r) r (rev [0..<m]) + 1) ^ 3"
  using assms
proof (induction m arbitrary: r)
  case 0
  then show ?case by simp
next
  case (Suc m)
  let ?r = "if (r + 2 ^ m) ^ 3 \<le> n then r + 2 ^ m else r"
  have "0 \<le> ?r" using Suc.prems(1) by simp
  moreover have "?r ^ 3 \<le> n" using Suc.prems(2) by simp
  moreover have "n < (?r + 2 ^ m) ^ 3"
    using Suc.prems(3) by (simp add: not_le algebra_simps)
  ultimately show ?case
    using Suc.IH [of ?r] by simp
qed

lemma icbrt_root:
  assumes "0 \<le> n" and "n < (2 ^ 40) ^ 3"
  shows "0 \<le> icbrt n \<and> icbrt n ^ 3 \<le> n \<and> n < (icbrt n + 1) ^ 3"
  unfolding icbrt_def using assms by (intro icbrt_step) simp_all

lemma icbrt_unique:
  assumes "0 \<le> k" and "k ^ 3 \<le> n" and "n < (k + 1) ^ 3" and "n < (2 ^ 40) ^ 3"
  shows "icbrt n = k"
proof -
  have "0 \<le> n" using assms(1,2) by (meson order_trans zero_le_power)
  from icbrt_root [OF this assms(4)]
  have r: "0 \<le> icbrt n" "icbrt n ^ 3 \<le> n" "n < (icbrt n + 1) ^ 3" by simp_all
  have "icbrt n < k + 1"
  proof (rule ccontr)
    assume "\<not> icbrt n < k + 1"
    then have "k + 1 \<le> icbrt n" by simp
    then have "(k + 1) ^ 3 \<le> icbrt n ^ 3" using assms(1) by (intro power_mono) simp_all
    with r(2) assms(3) show False by simp
  qed
  moreover have "k < icbrt n + 1"
  proof (rule ccontr)
    assume "\<not> k < icbrt n + 1"
    then have "icbrt n + 1 \<le> k" by simp
    then have "(icbrt n + 1) ^ 3 \<le> k ^ 3" using r(1) by (intro power_mono) simp_all
    with r(3) assms(2) show False by simp
  qed
  ultimately show ?thesis by simp
qed

lemma icbrt_check:
  "0 \<le> k \<and> k ^ 3 \<le> n \<and> n < (k + 1) ^ 3 \<and> n < (2 ^ 40) ^ 3 \<Longrightarrow> icbrt n = k"
  by (intro icbrt_unique) simp_all

lemma cube_roots: "map (\<lambda>p. icbrt (p * 2 ^ 96)) first_primes = cube_roots"
  unfolding first_primes_def cube_roots_def list.map
  by (intro arg_cong2 [of _ _ _ _ Cons] refl icbrt_check; simp)

lemma K256_cube_roots: "K256 = map word_of_int cube_roots"
  by (simp only: K256_def cube_roots [symmetric] map_map comp_def)

text \<open>Evaluation takes the constants from the proved list of roots.\<close>

declare K256_cube_roots [code]

section \<open>Lengths of digests and derived keys\<close>

lemma length_bytes_of_word32: "length (bytes_of_word32 w) = 4"
  by (simp add: bytes_of_word32_def)

lemma length_sha_output: "length (sha_output s) = 32"
  by (cases s rule: sha_output.cases) (simp add: length_bytes_of_word32)

lemma length_sha256: "length (sha256 m) = 32"
  by (simp add: sha256_def length_sha_output)

lemma length_hmac_SHA256: "length (hmac SHA256 key msg) = 32"
  by (simp add: hmac_def SHA256_def length_sha256)

lemma length_pbkdf2_chain:
  "length u = 32 \<Longrightarrow> length acc = 32 \<Longrightarrow> length (pbkdf2_chain SHA256 password n u acc) = 32"
proof (induction n arbitrary: u acc)
  case 0
  then show ?case by simp
next
  case (Suc n)
  have "length (xor_bytes acc (hmac SHA256 password u)) = 32"
    using Suc.prems by (simp add: xor_bytes_def length_hmac_SHA256)
  then show ?case
    by (simp add: Let_def Suc.IH length_hmac_SHA256)
qed

lemma length_pbkdf2_block: "length (pbkdf2_block SHA256 password salt count i) = 32"
  by (simp add: pbkdf2_block_def Let_def length_pbkdf2_chain length_hmac_SHA256)

lemma length_PBKDF2_32: "length (PBKDF2 password salt 32 count SHA256) = 32"
proof -
  have "digest_size SHA256 = 32" by (simp add: SHA256_def)
  then show ?thesis
    by (simp add: PBKDF2_def length_pbkdf2_block)
qed

lemma derive_key_length: "derive_key password salt = Inr key \<Longrightarrow> length key = 32"
  by (auto simp: derive_key_def KEY_LENGTH_def length_PBKDF2_32 split: option.splits)

section \<open>The library's PBKDF2 is the PBKDF2 of RFC 8018\<close>

lemma map2_xor_replicate:
  "length xs = n \<Longrightarrow> map2 (XOR) xs (replicate n c) = map (\<lambda>b. b XOR c) xs"
proof (induction xs arbitrary: n)
  case Nil
  then show ?case by simp
next
  case (Cons x xs)
  then obtain m where "n = Suc m" "length xs = m" by (cases n) auto
  with Cons.IH [of m] show ?case by simp
qed

lemma length_hmac_key_SHA256: "length (hmac_key SHA256 K) = 64"
  by (simp add: hmac_key_def SHA256_def Let_def length_sha256)

lemma hmac_SHA256_rfc2104: "hmac SHA256 K text = hmac_rfc2104 sha256 64 K text"
proof -
  have k: "hmac_key SHA256 K
           = (if 64 < length K then sha256 K else K)
             @ replicate (64 - length (if 64 < length K then sha256 K else K)) 0"
    by (simp add: hmac_key_def SHA256_def Let_def)
  have "map2 (XOR) (hmac_key SHA256 K) (replicate 64 c) = map (\<lambda>b. b XOR c) (hmac_key SHA256 K)"
    for c
    using length_hmac_key_SHA256 by (rule map2_xor_replicate)
  then show ?thesis
    unfolding hmac_rfc2104_def Let_def k [symmetric]
    by (simp add: hmac_def SHA256_def)
qed

text \<open>The running exclusive or of the library's loop is the \<open>F\<close> of RFC 8018.\<close>

lemma rfc8018_F_Suc:
  assumes "1 \<le> k"
  shows "rfc8018_F prf P S (Suc k) i
         = map2 (XOR) (rfc8018_F prf P S k i) (rfc8018_U prf P S i (Suc k))"
proof -
  have "[2..<Suc (Suc k)] = [2..<Suc k] @ [Suc k]" using assms by simp
  then show ?thesis by (simp add: rfc8018_F_def)
qed

lemma pbkdf2_chain_rfc8018:
  assumes "1 \<le> k"
  shows "pbkdf2_chain SHA256 P n (rfc8018_U (hmac_rfc2104 sha256 64) P S i k)
           (rfc8018_F (hmac_rfc2104 sha256 64) P S k i)
         = rfc8018_F (hmac_rfc2104 sha256 64) P S (k + n) i"
  using assms
proof (induction n arbitrary: k)
  case 0
  then show ?case by simp
next
  case (Suc n)
  from Suc.prems obtain j where k: "k = Suc j" by (cases k) auto
  have u: "hmac SHA256 P (rfc8018_U (hmac_rfc2104 sha256 64) P S i k)
           = rfc8018_U (hmac_rfc2104 sha256 64) P S i (Suc k)"
    by (simp add: k hmac_SHA256_rfc2104)
  have "1 \<le> Suc k" by simp
  from Suc.IH [OF this] show ?case
    by (simp add: Let_def u xor_bytes_def rfc8018_F_Suc [OF Suc.prems])
qed

lemma pbkdf2_block_rfc8018:
  assumes "1 \<le> c"
  shows "pbkdf2_block SHA256 P S c i = rfc8018_F (hmac_rfc2104 sha256 64) P S c i"
proof -
  have f1: "rfc8018_F (hmac_rfc2104 sha256 64) P S 1 i
            = rfc8018_U (hmac_rfc2104 sha256 64) P S i 1"
    by (simp add: rfc8018_F_def)
  have u1: "hmac SHA256 P (S @ bytes_of_word32 (of_nat i))
            = rfc8018_U (hmac_rfc2104 sha256 64) P S i 1"
    by (simp add: hmac_SHA256_rfc2104)
  have "pbkdf2_chain SHA256 P (c - 1) (rfc8018_U (hmac_rfc2104 sha256 64) P S i 1)
           (rfc8018_F (hmac_rfc2104 sha256 64) P S 1 i)
         = rfc8018_F (hmac_rfc2104 sha256 64) P S (1 + (c - 1)) i"
    by (rule pbkdf2_chain_rfc8018) simp
  then show ?thesis
    using assms by (simp add: pbkdf2_block_def Let_def u1 f1 del: One_nat_def)
qed

lemma PBKDF2_SHA256_rfc8018:
  assumes "1 \<le> c"
  shows "PBKDF2 P S dkLen c SHA256 = reference_pbkdf2_hmac_sha256 P S c dkLen"
proof -
  have "pbkdf2_block SHA256 P S c = rfc8018_F (hmac_rfc2104 sha256 64) P S c"
    by (rule ext) (rule pbkdf2_block_rfc8018 [OF assms])
  then show ?thesis
    by (simp add: PBKDF2_def reference_pbkdf2_hmac_sha256_def pbkdf2_rfc8018_def SHA256_def)
qed

subsection \<open>A published test vector\<close>

lemma sha256_vector_inner1:
  "sha256 (vector_ipad_key @ vector_salt @ [0, 0, 0, 1]) = vector_inner1"
  by code_simp

lemma sha256_vector_U1: "sha256 (vector_opad_key @ vector_inner1) = vector_U1"
  by code_simp

lemma sha256_vector_inner2: "sha256 (vector_ipad_key @ vector_U1) = vector_inner2"
  by code_simp

lemma sha256_vector_U2: "sha256 (vector_opad_key @ vector_inner2) = vector_U2"
  by code_simp

lemma vector_pads:
  "map2 (XOR) (vector_password @ replicate 56 0) (replicate 64 0x36) = vector_ipad_key"
  "map2 (XOR) (vector_password @ replicate 56 0) (replicate 64 0x5c) = vector_opad_key"
  by code_simp+

lemma hmac_vector_password:
  "hmac_rfc2104 sha256 64 vector_password text
   = sha256 (vector_opad_key @ sha256 (vector_ipad_key @ text))"
proof -
  have "length vector_password = 8" by (simp add: vector_password_def)
  then show ?thesis
    by (simp add: hmac_rfc2104_def Let_def vector_pads)
qed

lemma vector_U:
  "rfc8018_U (hmac_rfc2104 sha256 64) vector_password vector_salt 1 1 = vector_U1"
  "rfc8018_U (hmac_rfc2104 sha256 64) vector_password vector_salt 1 2 = vector_U2"
proof -
  have b: "bytes_of_word32 1 = [0, 0, 0, 1]" by (simp add: bytes_of_word32_def)
  show 1: "rfc8018_U (hmac_rfc2104 sha256 64) vector_password vector_salt 1 1 = vector_U1"
    by (simp add: hmac_vector_password b sha256_vector_inner1 sha256_vector_U1)
  have "rfc8018_U (hmac_rfc2104 sha256 64) vector_password vector_salt 1 2
        = hmac_rfc2104 sha256 64 vector_password
            (rfc8018_U (hmac_rfc2104 sha256 64) vector_password vector_salt 1 1)"
    by (simp add: numeral_2_eq_2)
  then show "rfc8018_U (hmac_rfc2104 sha256 64) vector_password vector_salt 1 2 = vector_U2"
    by (simp only: 1 hmac_vector_password sha256_vector_inner2 sha256_vector_U2)
qed

lemma vector_xor: "map2 (XOR) vector_U1 vector_U2 = vector_key"
  by code_simp

lemma length_vector_U1: "length vector_U1 = 32" and length_vector_key: "length vector_key = 32"
  by (simp_all add: vector_U1_def vector_key_def)

lemma pbkdf2_one_block:
  "reference_pbkdf2_hmac_sha256 P S c 32 = take 32 (rfc8018_F (hmac_rfc2104 sha256 64) P S c 1)"
proof -
  have "[1..<Suc ((32 + 32 - 1) div 32)] = [1]" by (simp add: upt_rec)
  then show ?thesis
    by (simp only: reference_pbkdf2_hmac_sha256_def pbkdf2_rfc8018_def list.map concat.simps append_Nil2)
qed

lemma pbkdf2_vector_1: "reference_pbkdf2_hmac_sha256 vector_password vector_salt 1 32 = vector_U1"
proof -
  have "rfc8018_F (hmac_rfc2104 sha256 64) vector_password vector_salt 1 1 = vector_U1"
    by (simp add: rfc8018_F_def vector_U(1) del: One_nat_def)
  then show ?thesis
    by (simp only: pbkdf2_one_block) (simp add: length_vector_U1)
qed

lemma pbkdf2_vector_2: "reference_pbkdf2_hmac_sha256 vector_password vector_salt 2 32 = vector_key"
proof -
  have "[2..<Suc 2] = [2]" by (simp add: upt_rec)
  then have "rfc8018_F (hmac_rfc2104 sha256 64) vector_password vector_salt 2 1 = vector_key"
    by (simp add: rfc8018_F_def vector_U vector_xor del: One_nat_def)
  then show ?thesis
    by (simp only: pbkdf2_one_block) (simp add: length_vector_key)
qed

section \<open>Splitting into blocks\<close>

lemma chunks_Nil: "chunks n [] = []"
  by (simp add: chunks_def)

lemma length_chunks: "length (chunks n xs) = length xs div n"
  by (simp add: chunks_def)

lemma chunks_elem:
  assumes "c \<in> set (chunks n xs)" and "0 < n"
  shows "length c = n \<and> set c \<subseteq> set xs"
proof -
  from assms(1) obtain i where i: "i < length xs div n" and c: "c = take n (drop (i * n) xs)"
    by (auto simp: chunks_def)
  from i have "Suc i \<le> length xs div n" by simp
  then have "Suc i * n \<le> length xs div n * n" by (rule mult_le_mono1)
  also have "\<dots> \<le> length xs" by simp
  finally have "i * n + n \<le> length xs" by simp
  then have "length c = n" by (simp add: c)
  moreover have "set c \<subseteq> set xs"
    unfolding c by (meson set_drop_subset set_take_subset subset_trans)
  ultimately show ?thesis by simp
qed

lemma chunks_append:
  assumes "length xs = n" and "0 < n"
  shows "chunks n (xs @ ys) = xs # chunks n ys"
proof -
  have d: "(n + length ys) div n = Suc (length ys div n)"
    using assms(2) by (simp add: div_add_self1)
  have "chunks n (xs @ ys)
        = map (\<lambda>i. take n (drop (i * n) (xs @ ys))) (0 # map Suc [0..<length ys div n])"
    unfolding chunks_def using assms(1) d 
    by (simp only: length_append upt_conv_Cons [of 0] map_Suc_upt [symmetric])
  also have "\<dots> = xs # map (\<lambda>i. take n (drop (i * n) ys)) [0..<length ys div n]"
    using assms(1) by (simp add: comp_def)
  finally show ?thesis by (simp add: chunks_def)
qed

lemma chunks_concat:
  assumes "\<forall>b \<in> set bs. length b = n" and "0 < n"
  shows "chunks n (concat bs) = bs"
  using assms by (induction bs) (simp_all add: chunks_Nil chunks_append)

lemma concat_chunks:
  assumes "0 < n" and "length xs = k * n"
  shows "concat (chunks n xs) = xs"
  using assms(2)
proof (induction k arbitrary: xs)
  case 0
  then show ?case by (simp add: chunks_Nil)
next
  case (Suc k)
  have l: "length (take n xs) = n" using Suc.prems by simp
  have "length (drop n xs) = k * n" using Suc.prems by simp
  then have IH: "concat (chunks n (drop n xs)) = drop n xs" by (rule Suc.IH)
  have "chunks n (take n xs @ drop n xs) = take n xs # chunks n (drop n xs)"
    using l assms(1) by (rule chunks_append)
  then show ?case using IH by simp
qed

section \<open>AES: decryption inverts encryption\<close>

lemma sbox_table: "map inv_sbox SBOX = map of_nat [0..<256]"
  by code_simp

lemma length_SBOX: "length SBOX = 256"
  by (simp add: SBOX_def)

lemma inv_sbox_sbox: "inv_sbox (sbox b) = b"
proof -
  have lt: "unat b < 256" using unsigned_less [of b] by simp
  have "map inv_sbox SBOX ! unat b = map of_nat [0..<256] ! unat b"
    by (simp only: sbox_table)
  then show ?thesis
    using lt by (simp add: sbox_def length_SBOX)
qed

lemma xtime_xor: "xtime (a XOR b) = xtime a XOR xtime b"
  by (simp add: xtime_def bit_xor_iff push_bit_xor ac_simps)

lemma xor_cancel_left: "a XOR (a XOR b) = (b :: byte)"
  by (simp add: xor.assoc [symmetric])

lemmas gf_simps = gmul3_def gmul9_def gmul11_def gmul13_def gmul14_def xtime_xor
  xor.assoc xor.commute xor.left_commute xor_cancel_left

lemma inv_mix_column_mix_column:
  "inv_mix_column (mix_column [a, b, c, d]) = [a, b, c, d]"
  by (simp add: gf_simps)

lemma mix_column_inv_mix_column:
  "mix_column (inv_mix_column [a, b, c, d]) = [a, b, c, d]"
  by (simp add: gf_simps)

lemma list16:
  assumes "length s = 16"
  obtains a0 a1 a2 a3 a4 a5 a6 a7 a8 a9 a10 a11 a12 a13 a14 a15
  where "s = [a0, a1, a2, a3, a4, a5, a6, a7, a8, a9, a10, a11, a12, a13, a14, a15]"
  using assms by (auto simp: eval_nat_numeral length_Suc_conv)

lemma length_shift_rows: "length (shift_rows s) = 16"
  by (simp add: shift_rows_def)

lemma length_inv_shift_rows: "length (inv_shift_rows s) = 16"
  by (simp add: inv_shift_rows_def)

lemma length_sub_bytes: "length (sub_bytes s) = length s"
  by (simp add: sub_bytes_def)

lemma length_inv_sub_bytes: "length (inv_sub_bytes s) = length s"
  by (simp add: inv_sub_bytes_def)

lemma length_add_round_key: "length k = length s \<Longrightarrow> length (add_round_key k s) = length s"
  by (simp add: add_round_key_def xor_bytes_def)

lemma inv_sub_bytes_sub_bytes: "inv_sub_bytes (sub_bytes s) = s"
  by (simp add: inv_sub_bytes_def sub_bytes_def inv_sbox_sbox comp_def)

lemma xor_bytes_cancel: "length k = length s \<Longrightarrow> xor_bytes (xor_bytes s k) k = s"
proof (induction s arbitrary: k)
  case Nil
  then show ?case by (simp add: xor_bytes_def)
next
  case (Cons a s)
  then obtain b k' where k: "k = b # k'" and "length k' = length s"
    by (cases k) auto
  with Cons.IH [of k'] show ?case
    by (simp add: xor_bytes_def xor.assoc)
qed

lemma add_round_key_cancel:
  "length k = length s \<Longrightarrow> add_round_key k (add_round_key k s) = s"
  by (simp add: add_round_key_def xor_bytes_cancel)

lemma inv_shift_rows_shift_rows:
  assumes "length s = 16"
  shows "inv_shift_rows (shift_rows s) = s"
proof -
  from assms obtain a0 a1 a2 a3 a4 a5 a6 a7 a8 a9 a10 a11 a12 a13 a14 a15
    where "s = [a0, a1, a2, a3, a4, a5, a6, a7, a8, a9, a10, a11, a12, a13, a14, a15]"
    by (rule list16)
  then show ?thesis
    by (simp add: inv_shift_rows_def shift_rows_def)
qed

lemma chunks4_16:
  "chunks 4 [a0, a1, a2, a3, a4, a5, a6, a7, a8, a9, a10, a11, a12, a13, a14, a15]
   = [[a0, a1, a2, a3], [a4, a5, a6, a7], [a8, a9, a10, a11], [a12, a13, a14, a15]]"
  by (simp add: chunks_def upt_rec)

lemma mix_columns_16:
  assumes "length s = 16"
  shows "length (mix_columns s) = 16" and "inv_mix_columns (mix_columns s) = s"
proof -
  from assms obtain a0 a1 a2 a3 a4 a5 a6 a7 a8 a9 a10 a11 a12 a13 a14 a15
    where s: "s = [a0, a1, a2, a3, a4, a5, a6, a7, a8, a9, a10, a11, a12, a13, a14, a15]"
    by (rule list16)
  have m: "mix_columns s = mix_column [a0, a1, a2, a3] @ mix_column [a4, a5, a6, a7]
             @ mix_column [a8, a9, a10, a11] @ mix_column [a12, a13, a14, a15]"
    by (simp only: s mix_columns_def chunks4_16) simp
  show "length (mix_columns s) = 16"
    by (simp add: m)
  have "chunks 4 (mix_columns s) = [mix_column [a0, a1, a2, a3], mix_column [a4, a5, a6, a7],
             mix_column [a8, a9, a10, a11], mix_column [a12, a13, a14, a15]]"
    unfolding m by (simp add: chunks4_16)
  then show "inv_mix_columns (mix_columns s) = s"
    by (simp only: inv_mix_columns_def list.map concat.simps inv_mix_column_mix_column s) simp
qed

lemma length_aes_round:
  "length k = 16 \<Longrightarrow> length s = 16 \<Longrightarrow> length (aes_round k s) = 16"
  by (simp add: aes_round_def length_add_round_key mix_columns_16(1) length_shift_rows)

lemma length_fold_aes_round:
  "\<forall>k \<in> set ks. length k = 16 \<Longrightarrow> length s = 16 \<Longrightarrow> length (fold aes_round ks s) = 16"
  by (induction ks arbitrary: s) (simp_all add: length_aes_round)

text \<open>One inverse round undoes one round, seen through ShiftRows and SubBytes.\<close>

lemma aes_inv_round_round:
  assumes "length k = 16" and "length s = 16"
  shows "aes_inv_round k (shift_rows (sub_bytes (aes_round k s))) = shift_rows (sub_bytes s)"
proof -
  let ?t = "shift_rows (sub_bytes s)"
  have lt: "length ?t = 16" by (rule length_shift_rows)
  have lm: "length (mix_columns ?t) = 16" using lt by (rule mix_columns_16(1))
  have lr: "length (aes_round k s) = 16" using assms by (rule length_aes_round)
  have "inv_sub_bytes (inv_shift_rows (shift_rows (sub_bytes (aes_round k s)))) = aes_round k s"
    by (simp add: inv_shift_rows_shift_rows length_sub_bytes lr inv_sub_bytes_sub_bytes)
  then have "aes_inv_round k (shift_rows (sub_bytes (aes_round k s)))
             = inv_mix_columns (add_round_key k (add_round_key k (mix_columns ?t)))"
    by (simp add: aes_inv_round_def aes_round_def)
  also have "\<dots> = inv_mix_columns (mix_columns ?t)"
    using assms(1) lm by (simp add: add_round_key_cancel)
  also have "\<dots> = ?t" using lt by (rule mix_columns_16(2))
  finally show ?thesis .
qed

lemma fold_aes_inv_round:
  assumes "\<forall>k \<in> set ks. length k = 16" and "length s = 16"
  shows "fold aes_inv_round (rev ks) (shift_rows (sub_bytes (fold aes_round ks s)))
         = shift_rows (sub_bytes s)"
  using assms(1)
proof (induction ks rule: rev_induct)
  case Nil
  then show ?case by simp
next
  case (snoc k ks)
  then have ks: "\<forall>k \<in> set ks. length k = 16" and k: "length k = 16" by simp_all
  have l: "length (fold aes_round ks s) = 16"
    using ks assms(2) by (rule length_fold_aes_round)
  show ?case
    using snoc.IH [OF ks] by (simp add: aes_inv_round_round [OF k l])
qed

lemma aes_decrypt_encrypt_block:
  assumes "\<forall>k \<in> set rks. length k = 16" and "2 \<le> length rks" and "length s = 16"
  shows "aes_decrypt_block rks (aes_encrypt_block rks s) = s"
    and "length (aes_encrypt_block rks s) = 16"
proof -
  from assms(2) obtain k0 ks where rks: "rks = k0 # ks"
    by (cases rks) auto
  with assms(2) have ne: "ks \<noteq> []" by auto
  have k0: "length k0 = 16" using assms(1) rks by simp
  have kl: "length (last ks) = 16" using assms(1) rks ne by simp
  have mid: "\<forall>k \<in> set (butlast ks). length k = 16"
    using assms(1) rks by (auto dest: in_set_butlastD)
  have l0: "length (add_round_key k0 s) = 16"
    using k0 assms(3) by (simp add: length_add_round_key)
  let ?m = "shift_rows (sub_bytes (fold aes_round (butlast ks) (add_round_key k0 s)))"
  have lm: "length ?m = 16" by (rule length_shift_rows)
  have e: "aes_encrypt_block rks s = add_round_key (last ks) ?m"
    by (simp add: aes_encrypt_block_def rks)
  show "length (aes_encrypt_block rks s) = 16"
    using kl lm by (simp add: e length_add_round_key)
  have "aes_decrypt_block rks (add_round_key (last ks) ?m)
        = add_round_key k0 (inv_sub_bytes (inv_shift_rows
            (fold aes_inv_round (rev (butlast ks)) ?m)))"
    using kl lm by (simp add: aes_decrypt_block_def rks add_round_key_cancel)
  then have "aes_decrypt_block rks (aes_encrypt_block rks s)
        = add_round_key k0 (inv_sub_bytes (inv_shift_rows
            (fold aes_inv_round (rev (butlast ks)) ?m)))"
    by (simp only: e)
  also have "\<dots> = add_round_key k0 (inv_sub_bytes (inv_shift_rows
            (shift_rows (sub_bytes (add_round_key k0 s)))))"
    by (simp only: fold_aes_inv_round [OF mid l0])
  also have "\<dots> = s"
    using k0 assms(3) l0
    by (simp add: inv_shift_rows_shift_rows length_sub_bytes inv_sub_bytes_sub_bytes
          add_round_key_cancel)
  finally show "aes_decrypt_block rks (aes_encrypt_block rks s) = s" .
qed

subsection \<open>Round keys\<close>

lemma length_xor_bytes: "length (xor_bytes xs ys) = min (length xs) (length ys)"
  by (simp add: xor_bytes_def)

lemma length_rot_word: "length (rot_word w) = length w"
  by (cases w) simp_all

lemma key_schedule_words:
  assumes "\<forall>w \<in> set ws. length w = 4" and "0 < Nk" and "Nk \<le> length ws"
  shows "length (key_schedule Nk n ws) = length ws + n
         \<and> (\<forall>w \<in> set (key_schedule Nk n ws). length w = 4)"
  using assms(1,3)
proof (induction n arbitrary: ws)
  case 0
  then show ?case by simp
next
  case (Suc n)
  from Suc.prems assms(2) have ne: "ws \<noteq> []" by auto
  then have "last ws \<in> set ws" by simp
  then have ll: "length (last ws) = 4" using Suc.prems(1) by simp
  have "length ws - Nk < length ws" using assms(2) ne by simp
  then have "ws ! (length ws - Nk) \<in> set ws" by simp
  then have ln: "length (ws ! (length ws - Nk)) = 4" using Suc.prems(1) by simp
  let ?t = "if length ws mod Nk = 0
            then xor_bytes (map sbox (rot_word (last ws))) (rcon (length ws div Nk))
            else if 6 < Nk \<and> length ws mod Nk = 4 then map sbox (last ws) else last ws"
  have lt: "length ?t = 4"
    using ll by (simp add: length_xor_bytes length_rot_word rcon_def)
  let ?ws = "ws @ [xor_bytes (ws ! (length ws - Nk)) ?t]"
  have "\<forall>w \<in> set ?ws. length w = 4"
    using Suc.prems(1) ln lt by (simp add: length_xor_bytes)
  moreover have "Nk \<le> length ?ws" using Suc.prems(2) by simp
  ultimately have "length (key_schedule Nk n ?ws) = length ?ws + n
         \<and> (\<forall>w \<in> set (key_schedule Nk n ?ws). length w = 4)"
    by (rule Suc.IH)
  then show ?case by (simp add: Let_def)
qed

lemma key_expansion_32:
  assumes "length key = 32"
  shows "length (key_expansion key) = 15 \<and> (\<forall>k \<in> set (key_expansion key). length k = 16)"
proof -
  let ?ws = "key_schedule 8 52 (chunks 4 key)"
  have c: "\<forall>w \<in> set (chunks 4 key). length w = 4"
    by (auto dest: chunks_elem)
  have "length (chunks 4 key) = 8" using assms by (simp add: length_chunks)
  with key_schedule_words [OF c, of 8 52]
  have ws: "length ?ws = 60" "\<forall>w \<in> set ?ws. length w = 4" by simp_all
  have ke: "key_expansion key = map concat (chunks 4 ?ws)"
    using assms by (simp add: key_expansion_def)
  have "length k = 16" if "k \<in> set (key_expansion key)" for k
  proof -
    from that obtain c where c: "c \<in> set (chunks 4 ?ws)" and k: "k = concat c"
      by (auto simp: ke)
    from chunks_elem [OF c] have "length c = 4" "set c \<subseteq> set ?ws" by simp_all
    with ws(2) have "length c = 4" "\<forall>w \<in> set c. length w = 4" by auto
    then obtain w0 w1 w2 w3 where "c = [w0, w1, w2, w3]"
      by (auto simp: eval_nat_numeral length_Suc_conv)
    with \<open>\<forall>w \<in> set c. length w = 4\<close> show ?thesis by (simp add: k)
  qed
  moreover have "length (key_expansion key) = 15"
    by (simp add: ke length_chunks ws(1))
  ultimately show ?thesis by simp
qed

subsection \<open>CBC mode\<close>

lemma cbc_encrypt_blocks_length:
  assumes "\<forall>k \<in> set rks. length k = 16" and "2 \<le> length rks"
    and "\<forall>p \<in> set ps. length p = 16" and "length prev = 16"
  shows "length (cbc_encrypt_blocks rks prev ps) = 16 * length ps"
  using assms(3,4)
proof (induction ps arbitrary: prev)
  case Nil
  then show ?case by simp
next
  case (Cons p ps)
  have "length (xor_bytes p prev) = 16" using Cons.prems by (simp add: length_xor_bytes)
  then have "length (aes_encrypt_block rks (xor_bytes p prev)) = 16"
    by (rule aes_decrypt_encrypt_block(2) [OF assms(1,2)])
  with Cons show ?case by (simp add: Let_def)
qed

lemma cbc_decrypt_encrypt_blocks:
  assumes "\<forall>k \<in> set rks. length k = 16" and "2 \<le> length rks"
    and "\<forall>p \<in> set ps. length p = 16" and "length prev = 16"
  shows "cbc_decrypt_blocks rks prev (chunks 16 (cbc_encrypt_blocks rks prev ps)) = concat ps"
  using assms(3,4)
proof (induction ps arbitrary: prev)
  case Nil
  then show ?case by (simp add: chunks_Nil)
next
  case (Cons p ps)
  let ?c = "aes_encrypt_block rks (xor_bytes p prev)"
  have lx: "length (xor_bytes p prev) = 16" using Cons.prems by (simp add: length_xor_bytes)
  have lc: "length ?c = 16"
    using lx by (rule aes_decrypt_encrypt_block(2) [OF assms(1,2)])
  have dc: "aes_decrypt_block rks ?c = xor_bytes p prev"
    using lx by (rule aes_decrypt_encrypt_block(1) [OF assms(1,2)])
  have ch: "chunks 16 (?c @ cbc_encrypt_blocks rks ?c ps) = ?c # chunks 16 (cbc_encrypt_blocks rks ?c ps)"
    using lc by (simp add: chunks_append)
  have IH: "cbc_decrypt_blocks rks ?c (chunks 16 (cbc_encrypt_blocks rks ?c ps)) = concat ps"
    using Cons.prems lc by (simp add: Cons.IH)
  have "xor_bytes (xor_bytes p prev) prev = p"
    using Cons.prems by (simp add: xor_bytes_cancel)
  then show ?case
    by (simp add: Let_def ch dc IH)
qed

text \<open>A cipher object as \<^verbatim>\<open>AES.new\<close> makes it from a 32-byte key and a 16-byte IV.\<close>

lemma cipher_decrypt_encrypt:
  assumes "length key = 32" and "length iv = 16" and "length data mod 16 = 0"
  shows "\<exists>ct. cipher_encrypt \<lparr>cipher_keys = key_expansion key, cipher_iv = iv\<rparr> data = Inr ct
           \<and> cipher_decrypt \<lparr>cipher_keys = key_expansion key, cipher_iv = iv\<rparr> ct = Inr data"
proof -
  let ?rks = "key_expansion key"
  let ?ps = "chunks 16 data"
  let ?ct = "cbc_encrypt_blocks ?rks iv ?ps"
  from key_expansion_32 [OF assms(1)]
  have rks: "\<forall>k \<in> set ?rks. length k = 16" "2 \<le> length ?rks" by simp_all
  have ps: "\<forall>p \<in> set ?ps. length p = 16" by (auto dest: chunks_elem)
  have "length data = (length data div 16) * 16" using assms(3) by auto
  then have cc: "concat ?ps = data" by (rule concat_chunks [rotated]) simp
  have "length ?ct = 16 * length ?ps"
    using rks ps assms(2) by (rule cbc_encrypt_blocks_length)
  then have al: "length ?ct mod 16 = 0" by simp
  have "cbc_decrypt_blocks ?rks iv (chunks 16 ?ct) = concat ?ps"
    using rks ps assms(2) by (rule cbc_decrypt_encrypt_blocks)
  with cc al assms(3) show ?thesis
    by (simp add: cipher_encrypt_def cipher_decrypt_def)
qed

section \<open>Base64: decoding inverts encoding\<close>

lemma byte_3_mask: "(3 :: byte) = mask 2" and byte_15_mask: "(15 :: byte) = mask 4" and byte_63_mask: "(63 :: byte) = mask 6"
  by (simp_all add: mask_eq_exp_minus_1)

lemma sextet_small:
  fixes a b c :: byte
  shows "drop_bit 6 (drop_bit 2 a) = 0"
    and "drop_bit 6 (push_bit 4 (a AND 3) OR drop_bit 4 b) = 0"
    and "drop_bit 6 (push_bit 2 (b AND 15) OR drop_bit 6 c) = 0"
    and "drop_bit 6 (c AND 63) = 0"
    and "drop_bit 6 (push_bit 4 (a AND 3)) = 0"
    and "drop_bit 6 (push_bit 2 (b AND 15)) = 0"
  unfolding byte_3_mask byte_15_mask byte_63_mask
  by (rule bit_word_eqI; auto simp: bit_simps)+

lemma byte_index_cases:
  assumes "n < 8"
  obtains "n = 0" | "n = 1" | "n = 2" | "n = 3" | "n = 4" | "n = 5" | "n = 6" | "n = (7::nat)"
  using assms by linarith

lemma b64_regroup1:
  fixes a b c :: byte
  shows "push_bit 2 (drop_bit 2 a) OR drop_bit 4 (push_bit 4 (a AND 3) OR drop_bit 4 b) = a"
  unfolding byte_3_mask byte_15_mask byte_63_mask
proof (rule bit_word_eqI)
  fix n :: nat
  assume "n < LENGTH(8)"
  then have "n < 8" by simp
  then show "bit (push_bit 2 (drop_bit 2 a) OR drop_bit 4 (push_bit 4 (a AND mask 2) OR drop_bit 4 b)) n = bit a n"
    by (cases rule: byte_index_cases) (simp_all add: bit_simps)
qed

lemma b64_regroup2:
  fixes a b c :: byte
  shows "push_bit 4 ((push_bit 4 (a AND 3) OR drop_bit 4 b) AND 15) OR drop_bit 2 (push_bit 2 (b AND 15) OR drop_bit 6 c) = b"
  unfolding byte_3_mask byte_15_mask byte_63_mask
proof (rule bit_word_eqI)
  fix n :: nat
  assume "n < LENGTH(8)"
  then have "n < 8" by simp
  then show "bit (push_bit 4 ((push_bit 4 (a AND mask 2) OR drop_bit 4 b) AND mask 4) OR drop_bit 2 (push_bit 2 (b AND mask 4) OR drop_bit 6 c)) n = bit b n"
    by (cases rule: byte_index_cases) (simp_all add: bit_simps)
qed

lemma b64_regroup3:
  fixes a b c :: byte
  shows "push_bit 6 ((push_bit 2 (b AND 15) OR drop_bit 6 c) AND 3) OR (c AND 63) = c"
  unfolding byte_3_mask byte_15_mask byte_63_mask
proof (rule bit_word_eqI)
  fix n :: nat
  assume "n < LENGTH(8)"
  then have "n < 8" by simp
  then show "bit (push_bit 6 ((push_bit 2 (b AND mask 4) OR drop_bit 6 c) AND mask 2) OR (c AND mask 6)) n = bit c n"
    by (cases rule: byte_index_cases) (simp_all add: bit_simps)
qed

lemma b64_regroup4:
  fixes a b c :: byte
  shows "push_bit 2 (drop_bit 2 a) OR drop_bit 4 (push_bit 4 (a AND 3)) = a"
  unfolding byte_3_mask byte_15_mask byte_63_mask
proof (rule bit_word_eqI)
  fix n :: nat
  assume "n < LENGTH(8)"
  then have "n < 8" by simp
  then show "bit (push_bit 2 (drop_bit 2 a) OR drop_bit 4 (push_bit 4 (a AND mask 2))) n = bit a n"
    by (cases rule: byte_index_cases) (simp_all add: bit_simps)
qed

lemma b64_regroup5:
  fixes a b c :: byte
  shows "push_bit 4 ((push_bit 4 (a AND 3) OR drop_bit 4 b) AND 15) OR drop_bit 2 (push_bit 2 (b AND 15)) = b"
  unfolding byte_3_mask byte_15_mask byte_63_mask
proof (rule bit_word_eqI)
  fix n :: nat
  assume "n < LENGTH(8)"
  then have "n < 8" by simp
  then show "bit (push_bit 4 ((push_bit 4 (a AND mask 2) OR drop_bit 4 b) AND mask 4) OR drop_bit 2 (push_bit 2 (b AND mask 4))) n = bit b n"
    by (cases rule: byte_index_cases) (simp_all add: bit_simps)
qed

lemma sextet_bound:
  fixes v :: byte
  assumes "drop_bit 6 v = 0"
  shows "unat v < 64"
proof -
  have "unat (drop_bit 6 v) = unat v div 64"
    by (simp add: drop_bit_eq_div unat_div)
  with assms show ?thesis by (simp add: div_eq_0_iff)
qed

lemma b64_value_char:
  assumes "drop_bit 6 v = 0"
  shows "b64_value (b64_char v) = Some v" and "b64_char v \<noteq> 61" and "b64_char v \<le> 127"
proof -
  have lt: "unat v < 64" using assms by (rule sextet_bound)
  have v: "of_nat (unat v) = v" by simp
  consider "unat v < 26" | "26 \<le> unat v" "unat v < 52" | "52 \<le> unat v" "unat v < 62"
    | "unat v = 62" | "unat v = 63"
    using lt by linarith
  then show "b64_value (b64_char v) = Some v"
  proof cases
    case 1
    then show ?thesis by (simp add: b64_char_def b64_value_def)
  next
    case 2
    then show ?thesis by (simp add: b64_char_def b64_value_def)
  next
    case 3
    then have c: "b64_char v = unat v - 4" by (simp add: b64_char_def)
    from 3 have "\<not> 65 \<le> unat v - 4" "\<not> 97 \<le> unat v - 4" "48 \<le> unat v - 4"
      "unat v - 4 \<le> 57" "unat v - 4 + 4 = unat v"
      by simp_all
    then show ?thesis by (simp add: c b64_value_def)
  next
    case 4
    then have "v = 62" using v by (metis of_nat_numeral)
    then show ?thesis by (simp add: b64_char_def b64_value_def)
  next
    case 5
    then have "v = 63" using v by (metis of_nat_numeral)
    then show ?thesis by (simp add: b64_char_def b64_value_def)
  qed
  show "b64_char v \<noteq> 61" using lt by (auto simp: b64_char_def Let_def)
  show "b64_char v \<le> 127" using lt by (auto simp: b64_char_def Let_def)
qed

lemma a2b_base64_quad:
  assumes "drop_bit 6 s1 = 0" "drop_bit 6 s2 = 0" "drop_bit 6 s3 = 0" "drop_bit 6 s4 = 0"
  shows "a2b_base64 0 l 0 (b64_char s1 # b64_char s2 # b64_char s3 # b64_char s4 # rest)
         = map_option (\<lambda>r. (push_bit 2 s1 OR drop_bit 4 s2)
                            # (push_bit 4 (s2 AND 15) OR drop_bit 2 s3)
                            # (push_bit 6 (s3 AND 3) OR s4) # r)
             (a2b_base64 0 0 0 rest)"
  by (simp add: b64_value_char assms option.map_comp comp_def)

lemma a2b_base64_triple:
  assumes "drop_bit 6 s1 = 0" "drop_bit 6 s2 = 0" "drop_bit 6 s3 = 0"
  shows "a2b_base64 0 l 0 [b64_char s1, b64_char s2, b64_char s3, 61]
         = Some [push_bit 2 s1 OR drop_bit 4 s2, push_bit 4 (s2 AND 15) OR drop_bit 2 s3]"
  by (simp add: b64_value_char assms)

lemma a2b_base64_pair:
  assumes "drop_bit 6 s1 = 0" "drop_bit 6 s2 = 0"
  shows "a2b_base64 0 l 0 [b64_char s1, b64_char s2, 61, 61]
         = Some [push_bit 2 s1 OR drop_bit 4 s2]"
  by (simp add: b64_value_char assms)

lemma a2b_base64_b64encode: "a2b_base64 0 0 0 (b64encode bs) = Some bs"
proof (induction bs rule: b64encode.induct)
  case (1 a b c r)
  show ?case
    by (simp only: b64encode.simps a2b_base64_quad sextet_small "1.IH" option.map
          b64_regroup1 b64_regroup2 b64_regroup3)
next
  case (2 a b)
  show ?case
    by (simp only: b64encode.simps a2b_base64_triple sextet_small b64_regroup1 b64_regroup5)
next
  case (3 a)
  show ?case
    by (simp only: b64encode.simps a2b_base64_pair sextet_small b64_regroup4)
next
  case 4
  show ?case by simp
qed

lemma b64encode_ascii: "c \<in> set (b64encode bs) \<Longrightarrow> c \<le> 127"
  by (induction bs rule: b64encode.induct) (auto simp: b64_value_char(3) sextet_small)

lemma b64decode_b64encode: "b64decode (b64encode bs) = Some bs"
proof -
  have "\<not> (\<exists>c \<in> set (b64encode bs). 127 < c)"
    by (auto dest: b64encode_ascii)
  then show ?thesis
    by (simp only: b64decode_def a2b_base64_b64encode if_False)
qed

section \<open>UTF-8: decoding inverts encoding\<close>

lemma utf8_digits3: "(c::nat) div 4096 * 4096 + c div 64 mod 64 * 64 + c mod 64 = c"
proof -
  define q where "q = c div 64"
  define h where "h = q div 64"
  define l where "l = q mod 64"
  have a: "c div 4096 = h" by (simp add: h_def q_def div_mult2_eq)
  have q: "q = h * 64 + l" by (simp add: h_def l_def)
  have "h * 4096 + l * 64 + c mod 64 = (h * 64 + l) * 64 + c mod 64"
    by (simp add: algebra_simps)
  also have "\<dots> = q * 64 + c mod 64" by (simp only: q)
  also have "\<dots> = c" by (simp add: q_def)
  finally show ?thesis by (simp only: a l_def q_def)
qed

lemma utf8_digits4:
  "(c::nat) div 262144 * 262144 + c div 4096 mod 64 * 4096 + c div 64 mod 64 * 64 + c mod 64 = c"
proof -
  define q where "q = c div 64"
  define h where "h = q div 4096"
  define m where "m = q div 64 mod 64"
  define l where "l = q mod 64"
  have "c div 4096 = c div 64 div 64" "c div 262144 = c div 64 div 4096"
    by (simp_all add: div_mult2_eq)
  then have a: "c div 262144 = h" "c div 4096 mod 64 = m"
    by (simp_all only: h_def m_def q_def)
  have q: "q = h * 4096 + m * 64 + l"
    unfolding h_def m_def l_def by (rule utf8_digits3 [symmetric])
  have "h * 262144 + m * 4096 + l * 64 + c mod 64 = (h * 4096 + m * 64 + l) * 64 + c mod 64"
    by (simp add: algebra_simps)
  also have "\<dots> = q * 64 + c mod 64" by (simp only: q)
  also have "\<dots> = c" by (simp add: q_def)
  finally show ?thesis by (simp only: a l_def q_def)
qed

lemma unat_byte_of_nat: "n < 256 \<Longrightarrow> unat (of_nat n :: byte) = n"
  by (simp add: unat_of_nat)

lemma cont_byte:
  assumes "m < 64"
  shows "is_cont (of_nat (128 + m))" and "cont_bits (of_nat (128 + m)) = m"
proof -
  have u: "unat (of_nat (128 + m) :: byte) = 128 + m"
    by (rule unat_byte_of_nat) (use assms in simp)
  show "is_cont (of_nat (128 + m))" and "cont_bits (of_nat (128 + m)) = m"
    unfolding is_cont_def cont_bits_def u using assms by simp_all
qed

lemma utf8_decode_encode_cp:
  assumes "utf8_encode_cp c = Some e"
  shows "utf8_decode (e @ rest) = map_option ((#) c) (utf8_decode rest)"
proof -
  consider (one) "c < 0x80" | (two) "0x80 \<le> c" "c < 0x800"
    | (three) "0x800 \<le> c" "c < 0x10000" "\<not> (0xD800 \<le> c \<and> c < 0xE000)"
    | (four) "0x10000 \<le> c" "c < 0x110000"
    | (none) "0xD800 \<le> c \<and> c < 0xE000 \<or> 0x110000 \<le> c"
    by linarith
  then show ?thesis
  proof cases
    case one
    then have "e = [of_nat c]" using assms by (simp add: utf8_encode_cp_def)
    then show ?thesis using one by (simp add: unat_byte_of_nat)
  next
    case two
    then have e: "e = [of_nat (0xC0 + c div 64), of_nat (128 + c mod 64)]"
      using assms by (simp add: utf8_encode_cp_def)
    have d: "c div 64 < 32" "2 \<le> c div 64" using two by simp_all
    then have b0: "unat (of_nat (0xC0 + c div 64) :: byte) = 0xC0 + c div 64"
      by (intro unat_byte_of_nat) simp
    have "c div 64 * 64 + c mod 64 = c" by simp
    then show ?thesis
      using d by (simp add: e b0 cont_byte del: of_nat_add of_nat_numeral)
  next
    case three
    then have e: "e = [of_nat (0xE0 + c div 4096), of_nat (128 + c div 64 mod 64),
                       of_nat (128 + c mod 64)]"
      using assms by (auto simp: utf8_encode_cp_def split: if_splits)
    have d: "c div 4096 < 16" using three by simp
    then have b0: "unat (of_nat (0xE0 + c div 4096) :: byte) = 0xE0 + c div 4096"
      by (intro unat_byte_of_nat) simp
    note utf8_digits3 [of c]
    then show ?thesis
      using d three by (simp add: e b0 cont_byte del: of_nat_add of_nat_numeral)
  next
    case four
    then have e: "e = [of_nat (0xF0 + c div 262144), of_nat (128 + c div 4096 mod 64),
                       of_nat (128 + c div 64 mod 64), of_nat (128 + c mod 64)]"
      using assms by (auto simp: utf8_encode_cp_def split: if_splits)
    have d: "c div 262144 < 5" using four by simp
    then have b0: "unat (of_nat (0xF0 + c div 262144) :: byte) = 0xF0 + c div 262144"
      by (intro unat_byte_of_nat) simp
    note utf8_digits4 [of c]
    then show ?thesis
      using d four by (simp add: e b0 cont_byte del: of_nat_add of_nat_numeral)
  next
    case none
    then show ?thesis using assms by (auto simp: utf8_encode_cp_def)
  qed
qed

lemma utf8_decode_encode:
  "utf8_encode s = Some bs \<Longrightarrow> utf8_decode bs = Some s"
proof (induction s arbitrary: bs)
  case Nil
  then show ?case by simp
next
  case (Cons c s)
  then obtain e r where e: "utf8_encode_cp c = Some e" and r: "utf8_encode s = Some r"
    and bs: "bs = e @ r"
    by (auto split: option.splits)
  from Cons.IH [OF r] show ?case
    by (simp only: bs utf8_decode_encode_cp [OF e]) simp
qed

subsection \<open>Every decoded text encodes to the bytes it came from\<close>

lemma split_low_digit:
  fixes q l :: nat
  assumes "l < 64"
  shows "(q * 64 + l) div 64 = q" and "(q * 64 + l) mod 64 = l"
  using assms by simp_all

lemma byte_of_unat_sum:
  fixes b :: byte
  assumes "k \<le> unat b"
  shows "of_nat (k + (unat b - k)) = b"
  using assms by simp

lemma utf8_encode_cp_1:
  fixes b0 :: byte
  assumes "unat b0 < 0x80"
  shows "utf8_encode_cp (unat b0) = Some [b0]"
  using assms by (simp add: utf8_encode_cp_def)

lemma utf8_encode_cp_2:
  fixes b0 b1 :: byte
  assumes "0xC2 \<le> unat b0" and "unat b0 < 0xE0" and "is_cont b1"
  shows "utf8_encode_cp ((unat b0 - 0xC0) * 64 + cont_bits b1) = Some [b0, b1]"
proof -
  define h where "h = unat b0 - 0xC0"
  define l where "l = cont_bits b1"
  have h: "2 \<le> h" "h < 32" using assms(1,2) by (simp_all add: h_def)
  have l: "l < 64" using assms(3) by (auto simp: l_def cont_bits_def is_cont_def)
  have r: "128 \<le> h * 64 + l" "h * 64 + l < 2048" using h l by simp_all
  have d: "(h * 64 + l) div 64 = h" "(h * 64 + l) mod 64 = l"
    using l by (rule split_low_digit)+
  have b0: "of_nat (192 + h) = b0"
    unfolding h_def by (rule byte_of_unat_sum) (use assms(1) in simp)
  have b1: "of_nat (128 + l) = b1"
    unfolding l_def cont_bits_def
    by (rule byte_of_unat_sum) (use assms(3) in \<open>simp add: is_cont_def\<close>)
  have n: "\<not> h * 64 + l < 128" using r(1) by simp
  have "utf8_encode_cp (h * 64 + l) = Some [of_nat (192 + h), of_nat (128 + l)]"
    by (simp only: utf8_encode_cp_def n r(2) d if_True if_False)
  then have "utf8_encode_cp (h * 64 + l) = Some [b0, b1]" by (simp only: b0 b1)
  then show ?thesis by (simp only: h_def l_def)
qed

lemma utf8_encode_cp_3:
  fixes b0 b1 b2 :: byte
  assumes "0xE0 \<le> unat b0" and "unat b0 < 0xF0" and "is_cont b1" and "is_cont b2"
    and "0x800 \<le> (unat b0 - 0xE0) * 4096 + cont_bits b1 * 64 + cont_bits b2"
    and "\<not> (0xD800 \<le> (unat b0 - 0xE0) * 4096 + cont_bits b1 * 64 + cont_bits b2
            \<and> (unat b0 - 0xE0) * 4096 + cont_bits b1 * 64 + cont_bits b2 < 0xE000)"
  shows "utf8_encode_cp ((unat b0 - 0xE0) * 4096 + cont_bits b1 * 64 + cont_bits b2)
         = Some [b0, b1, b2]"
proof -
  define h where "h = unat b0 - 0xE0"
  define m where "m = cont_bits b1"
  define l where "l = cont_bits b2"
  define c where "c = h * 4096 + m * 64 + l"
  have h: "h < 16" using assms(1,2) by (simp add: h_def)
  have m: "m < 64" using assms(3) by (auto simp: m_def cont_bits_def is_cont_def)
  have l: "l < 64" using assms(4) by (auto simp: l_def cont_bits_def is_cont_def)
  have c: "c = (h * 64 + m) * 64 + l" by (simp add: c_def algebra_simps)
  have d1: "c div 64 = h * 64 + m" "c mod 64 = l"
    unfolding c using l by (rule split_low_digit)+
  have d2: "c div 64 mod 64 = m" "c div 4096 = h"
  proof -
    show "c div 64 mod 64 = m" unfolding d1 using m by (rule split_low_digit(2))
    have "c div 4096 = c div 64 div 64" by (simp add: div_mult2_eq)
    also have "\<dots> = h" unfolding d1 using m by (rule split_low_digit(1))
    finally show "c div 4096 = h" .
  qed
  have r: "2048 \<le> c" "\<not> (55296 \<le> c \<and> c < 57344)"
    using assms(5,6) by (simp_all add: c_def h_def m_def l_def)
  have r2: "c < 65536" "\<not> c < 128" "\<not> c < 2048" using h m l r(1) by (simp_all add: c_def)
  have b0: "of_nat (224 + h) = b0"
    unfolding h_def by (rule byte_of_unat_sum) (use assms(1) in simp)
  have b1: "of_nat (128 + m) = b1"
    unfolding m_def cont_bits_def
    by (rule byte_of_unat_sum) (use assms(3) in \<open>simp add: is_cont_def\<close>)
  have b2: "of_nat (128 + l) = b2"
    unfolding l_def cont_bits_def
    by (rule byte_of_unat_sum) (use assms(4) in \<open>simp add: is_cont_def\<close>)
  have "utf8_encode_cp c = Some [of_nat (224 + h), of_nat (128 + m), of_nat (128 + l)]"
    by (simp only: utf8_encode_cp_def r(2) r2 d1(2) d2 if_True if_False)
  then have "utf8_encode_cp c = Some [b0, b1, b2]" by (simp only: b0 b1 b2)
  then show ?thesis by (simp only: c_def h_def m_def l_def)
qed

lemma utf8_encode_cp_4:
  fixes b0 b1 b2 b3 :: byte
  assumes "0xF0 \<le> unat b0" and "unat b0 < 0xF5"
    and "is_cont b1" and "is_cont b2" and "is_cont b3"
    and "0x10000 \<le> (unat b0 - 0xF0) * 262144 + cont_bits b1 * 4096 + cont_bits b2 * 64
                     + cont_bits b3"
    and "(unat b0 - 0xF0) * 262144 + cont_bits b1 * 4096 + cont_bits b2 * 64 + cont_bits b3
         < 0x110000"
  shows "utf8_encode_cp ((unat b0 - 0xF0) * 262144 + cont_bits b1 * 4096 + cont_bits b2 * 64
                         + cont_bits b3)
         = Some [b0, b1, b2, b3]"
proof -
  define h where "h = unat b0 - 0xF0"
  define k where "k = cont_bits b1"
  define m where "m = cont_bits b2"
  define l where "l = cont_bits b3"
  define c where "c = h * 262144 + k * 4096 + m * 64 + l"
  have k: "k < 64" using assms(3) by (auto simp: k_def cont_bits_def is_cont_def)
  have m: "m < 64" using assms(4) by (auto simp: m_def cont_bits_def is_cont_def)
  have l: "l < 64" using assms(5) by (auto simp: l_def cont_bits_def is_cont_def)
  have c: "c = ((h * 64 + k) * 64 + m) * 64 + l" by (simp add: c_def algebra_simps)
  have d1: "c div 64 = (h * 64 + k) * 64 + m" "c mod 64 = l"
    unfolding c using l by (rule split_low_digit)+
  have d2: "c div 64 div 64 = h * 64 + k" "c div 64 mod 64 = m"
    unfolding d1 using m by (rule split_low_digit)+
  have d3: "c div 64 div 64 div 64 = h" "c div 64 div 64 mod 64 = k"
    unfolding d2 using k by (rule split_low_digit)+
  have e: "c div 4096 = c div 64 div 64" "c div 262144 = c div 64 div 64 div 64"
    by (simp_all add: div_mult2_eq)
  have d4: "c div 262144 = h" "c div 4096 mod 64 = k"
    by (simp_all only: e d3)
  have r: "65536 \<le> c" "c < 1114112"
    using assms(6,7) by (simp_all add: c_def h_def k_def m_def l_def)
  then have r2: "\<not> c < 128" "\<not> c < 2048" "\<not> c < 65536" "\<not> (55296 \<le> c \<and> c < 57344)"
    by simp_all
  have b0: "of_nat (240 + h) = b0"
    unfolding h_def by (rule byte_of_unat_sum) (use assms(1) in simp)
  have b1: "of_nat (128 + k) = b1"
    unfolding k_def cont_bits_def
    by (rule byte_of_unat_sum) (use assms(3) in \<open>simp add: is_cont_def\<close>)
  have b2: "of_nat (128 + m) = b2"
    unfolding m_def cont_bits_def
    by (rule byte_of_unat_sum) (use assms(4) in \<open>simp add: is_cont_def\<close>)
  have b3: "of_nat (128 + l) = b3"
    unfolding l_def cont_bits_def
    by (rule byte_of_unat_sum) (use assms(5) in \<open>simp add: is_cont_def\<close>)
  have "utf8_encode_cp c
        = Some [of_nat (240 + h), of_nat (128 + k), of_nat (128 + m), of_nat (128 + l)]"
    by (simp only: utf8_encode_cp_def r(2) r2 d4 d2(2) d1(2) if_True if_False)
  then have "utf8_encode_cp c = Some [b0, b1, b2, b3]" by (simp only: b0 b1 b2 b3)
  then show ?thesis by (simp only: c_def h_def k_def m_def l_def)
qed

lemma utf8_encode_decode:
  "utf8_decode bs = Some s \<Longrightarrow> utf8_encode s = Some bs"
proof (induction bs arbitrary: s rule: utf8_decode.induct)
  case 1
  then show ?case by simp
next
  case (2 b0 bs)
  consider (one) "unat b0 < 0x80"
    | (two) b1 r where "0xC2 \<le> unat b0" "unat b0 < 0xE0" "bs = b1 # r" "is_cont b1"
    | (three) b1 b2 r where "0xE0 \<le> unat b0" "unat b0 < 0xF0" "bs = b1 # b2 # r"
        "is_cont b1" "is_cont b2"
        "0x800 \<le> (unat b0 - 0xE0) * 4096 + cont_bits b1 * 64 + cont_bits b2"
        "\<not> (0xD800 \<le> (unat b0 - 0xE0) * 4096 + cont_bits b1 * 64 + cont_bits b2
            \<and> (unat b0 - 0xE0) * 4096 + cont_bits b1 * 64 + cont_bits b2 < 0xE000)"
    | (four) b1 b2 b3 r where "0xF0 \<le> unat b0" "unat b0 < 0xF5" "bs = b1 # b2 # b3 # r"
        "is_cont b1" "is_cont b2" "is_cont b3"
        "0x10000 \<le> (unat b0 - 0xF0) * 262144 + cont_bits b1 * 4096 + cont_bits b2 * 64
                     + cont_bits b3"
        "(unat b0 - 0xF0) * 262144 + cont_bits b1 * 4096 + cont_bits b2 * 64 + cont_bits b3
         < 0x110000"
    using "2.prems"
    by (auto simp: Let_def not_less split: if_splits list.splits)
  then show ?case
  proof cases
    case one
    with "2.prems" obtain t where t: "utf8_decode bs = Some t" and s: "s = unat b0 # t"
      by auto
    from "2.IH"(1) [OF one t] show ?thesis
      by (simp add: s utf8_encode_cp_1 [OF one])
  next
    case two
    then have c: "\<not> unat b0 < 0x80" "\<not> unat b0 < 0xC2" by simp_all
    with two "2.prems" obtain t where t: "utf8_decode r = Some t"
      and s: "s = ((unat b0 - 0xC0) * 64 + cont_bits b1) # t"
      by auto
    from "2.IH"(2) [OF c two(2,3,4) t] show ?thesis
      by (simp add: s two(3) utf8_encode_cp_2 [OF two(1,2,4)])
  next
    case three
    then have c: "\<not> unat b0 < 0x80" "\<not> unat b0 < 0xC2" "\<not> unat b0 < 0xE0" by simp_all
    let ?c = "(unat b0 - 0xE0) * 4096 + cont_bits b1 * 64 + cont_bits b2"
    from c three "2.prems" obtain t where t: "utf8_decode r = Some t" and s: "s = ?c # t"
      by (auto simp: Let_def)
    have g: "is_cont b1 \<and> is_cont b2 \<and> 0x800 \<le> ?c \<and> \<not> (0xD800 \<le> ?c \<and> ?c < 0xE000)"
      using three by simp
    from "2.IH"(3) [OF c three(2,3) refl refl g t] show ?thesis
      by (simp add: s three(3) utf8_encode_cp_3 [OF three(1,2,4,5,6,7)])
  next
    case four
    then have c: "\<not> unat b0 < 0x80" "\<not> unat b0 < 0xC2" "\<not> unat b0 < 0xE0"
      "\<not> unat b0 < 0xF0" by simp_all
    let ?c = "(unat b0 - 0xF0) * 262144 + cont_bits b1 * 4096 + cont_bits b2 * 64
              + cont_bits b3"
    from c four "2.prems" obtain t where t: "utf8_decode r = Some t" and s: "s = ?c # t"
      by (auto simp: Let_def)
    have g: "is_cont b1 \<and> is_cont b2 \<and> is_cont b3 \<and> 0x10000 \<le> ?c \<and> ?c < 0x110000"
      using four by simp
    from "2.IH"(4) [OF c four(2,3) refl refl refl g t] show ?thesis
      by (simp add: s four(3) utf8_encode_cp_4 [OF four(1,2,4,5,6,7,8)])
  qed
qed

section \<open>Decryption under any key\<close>

lemma length_inv_mix_columns:
  assumes "length s = 16"
  shows "length (inv_mix_columns s) = 16"
proof -
  from assms obtain a0 a1 a2 a3 a4 a5 a6 a7 a8 a9 a10 a11 a12 a13 a14 a15
    where s: "s = [a0, a1, a2, a3, a4, a5, a6, a7, a8, a9, a10, a11, a12, a13, a14, a15]"
    by (rule list16)
  show ?thesis
    by (simp only: s inv_mix_columns_def chunks4_16) simp
qed

lemma length_aes_inv_round:
  "length k = 16 \<Longrightarrow> length (aes_inv_round k s) = 16"
  by (simp add: aes_inv_round_def length_inv_mix_columns length_add_round_key
        length_inv_sub_bytes length_inv_shift_rows)

lemma length_fold_aes_inv_round:
  "\<forall>k \<in> set ks. length k = 16 \<Longrightarrow> length s = 16
   \<Longrightarrow> length (fold aes_inv_round ks s) = 16"
  by (induction ks arbitrary: s) (simp_all add: length_aes_inv_round)

lemma length_aes_decrypt_block:
  assumes "\<forall>k \<in> set rks. length k = 16" and "rks \<noteq> []"
  shows "length (aes_decrypt_block rks s) = 16"
proof -
  from assms(2) obtain k0 ks where rks: "rks = k0 # ks" by (cases rks) auto
  have k0: "length k0 = 16" using assms(1) rks by simp
  show ?thesis
    by (simp add: aes_decrypt_block_def rks length_add_round_key k0 length_inv_sub_bytes
          length_inv_shift_rows)
qed

lemma length_cbc_decrypt_blocks:
  assumes "\<forall>k \<in> set rks. length k = 16" and "rks \<noteq> []"
    and "\<forall>c \<in> set cs. length c = 16" and "length prev = 16"
  shows "length (cbc_decrypt_blocks rks prev cs) = 16 * length cs"
  using assms(3,4)
proof (induction cs arbitrary: prev)
  case Nil
  then show ?case by simp
next
  case (Cons c cs)
  have "length (xor_bytes (aes_decrypt_block rks c) prev) = 16"
    using Cons.prems by (simp add: length_xor_bytes length_aes_decrypt_block [OF assms(1,2)])
  with Cons show ?case by simp
qed

text \<open>With a 32-byte key and a 16-byte IV the decrypted buffer is as long as the data.\<close>

lemma length_cipher_decrypt:
  assumes "length key = 32" and "length iv = 16"
    and "cipher_decrypt \<lparr>cipher_keys = key_expansion key, cipher_iv = iv\<rparr> data = Inr buf"
  shows "length buf = length data"
proof -
  from key_expansion_32 [OF assms(1)]
  have rks: "\<forall>k \<in> set (key_expansion key). length k = 16" "key_expansion key \<noteq> []"
    by auto
  have cs: "\<forall>c \<in> set (chunks 16 data). length c = 16" by (auto dest: chunks_elem)
  from assms(3) have al: "length data mod 16 = 0"
    and buf: "buf = cbc_decrypt_blocks (key_expansion key) iv (chunks 16 data)"
    by (auto simp: cipher_decrypt_def split: if_splits)
  have "length buf = 16 * length (chunks 16 data)"
    unfolding buf using rks cs assms(2) by (rule length_cbc_decrypt_blocks)
  also have "\<dots> = 16 * (length data div 16)" by (simp add: length_chunks)
  also have "\<dots> = length data" using al by presburger
  finally show ?thesis .
qed

subsection \<open>Passphrases with the same key\<close>

lemma hmac_key_append_zero:
  assumes "length key < block_size h"
  shows "hmac_key h (key @ [0]) = hmac_key h key"
proof -
  have "replicate (block_size h - length key) (0 :: byte)
        = 0 # replicate (block_size h - Suc (length key)) 0"
    using assms by (simp add: Suc_diff_Suc flip: replicate_Suc)
  then show ?thesis using assms by (simp add: hmac_key_def)
qed

lemma hmac_append_zero:
  "length key < block_size h \<Longrightarrow> hmac h (key @ [0]) msg = hmac h key msg"
  by (simp only: hmac_def hmac_key_append_zero)

lemma pbkdf2_chain_append_zero:
  "length key < block_size h
   \<Longrightarrow> pbkdf2_chain h (key @ [0]) n u acc = pbkdf2_chain h key n u acc"
  by (induction n arbitrary: u acc) (simp_all add: hmac_append_zero)

lemma PBKDF2_append_zero:
  assumes "length key < block_size h"
  shows "PBKDF2 (key @ [0]) salt dkLen count h = PBKDF2 key salt dkLen count h"
proof -
  have "pbkdf2_block h (key @ [0]) salt count = pbkdf2_block h key salt count"
    by (rule ext) (simp only: pbkdf2_block_def hmac_append_zero [OF assms]
        pbkdf2_chain_append_zero [OF assms])
  then show ?thesis by (simp only: PBKDF2_def)
qed

lemma utf8_encode_append:
  "utf8_encode (s @ t) =
     (case utf8_encode s of
        None \<Rightarrow> None
      | Some a \<Rightarrow> (case utf8_encode t of None \<Rightarrow> None | Some b \<Rightarrow> Some (a @ b)))"
  by (induction s) (auto split: option.splits)

lemma derive_key_append_nul:
  assumes "utf8_encode password = Some pw" and "length pw < 64"
  shows "derive_key (password @ [0]) salt = derive_key password salt"
proof -
  have "utf8_encode [0] = Some [0]" by (simp add: utf8_encode_cp_def)
  then have "utf8_encode (password @ [0]) = Some (pw @ [0])"
    by (simp add: utf8_encode_append assms(1))
  moreover have "length pw < block_size SHA256" using assms(2) by (simp add: SHA256_def)
  ultimately show ?thesis
    by (simp only: derive_key_def assms(1) option.case PBKDF2_append_zero)
qed

lemma decrypt_same_key:
  assumes "decrypt_container container = Inr (salt, iv, encrypted)"
    and "derive_key password' salt = derive_key password salt"
  shows "decrypt container password' = decrypt container password"
  by (simp add: decrypt_def decrypted_data_def assms)

section \<open>The steps of \<^verbatim>\<open>decrypt\<close>\<close>

lemma decrypt_container_Some:
  assumes "b64decode payload = Some combined" and "48 \<le> length combined"
  shows "decrypt_container payload
         = Inr (take 32 combined, take 16 (drop 32 combined), drop 48 combined)"
  using assms
  by (simp add: decrypt_container_def SALT_LENGTH_def IV_LENGTH_def py_slice_def drop_take)

lemma decrypt_container_Inr:
  assumes "decrypt_container payload = Inr (salt, iv, encrypted)"
  shows "\<exists>combined. b64decode payload = Some combined \<and> 48 \<le> length combined
           \<and> salt = take 32 combined \<and> iv = take 16 (drop 32 combined)
           \<and> encrypted = drop 48 combined"
  using assms
  by (auto simp: decrypt_container_def SALT_LENGTH_def IV_LENGTH_def py_slice_def drop_take
           split: option.splits if_splits)

lemma decrypt_container_lengths:
  assumes "decrypt_container payload = Inr (salt, iv, encrypted)"
  shows "length salt = 32 \<and> length iv = 16"
  using decrypt_container_Inr [OF assms] by auto

lemma decrypt_container_None:
  "b64decode payload = None \<Longrightarrow> decrypt_container payload = Inl Base64Error"
  by (simp add: decrypt_container_def)

lemma decrypt_container_short:
  "b64decode payload = Some combined \<Longrightarrow> length combined < 48
   \<Longrightarrow> decrypt_container payload = Inl InvalidFormat"
  by (simp add: decrypt_container_def SALT_LENGTH_def IV_LENGTH_def)

lemma decrypt_container_Inl:
  "decrypt_container payload = Inl e \<Longrightarrow> decrypt payload password = Inl e"
  by (simp add: decrypt_def decrypted_data_def)

text \<open>
  After a well-formed container, \<^verbatim>\<open>AES.new\<close> never fails: the derived key has 32 bytes and
  the IV slice 16.
\<close>

lemma decrypted_data_container:
  assumes "decrypt_container payload = Inr (salt, iv, encrypted)"
  shows "decrypted_data payload password =
           (case utf8_encode password of
              None \<Rightarrow> Inl UnicodeEncodeError
            | Some pw \<Rightarrow>
                cipher_decrypt
                  \<lparr>cipher_keys = key_expansion (PBKDF2 pw salt 32 100000 SHA256), cipher_iv = iv\<rparr>
                  encrypted)"
  using assms decrypt_container_lengths [OF assms]
  by (simp add: decrypted_data_def derive_key_def AES_new_CBC_def KEY_LENGTH_def
        ITERATION_COUNT_def length_PBKDF2_32 split: option.splits)

lemma cipher_decrypt_errors:
  "cipher_decrypt cipher data = Inl e \<Longrightarrow> e = CipherLengthError"
  by (auto simp: cipher_decrypt_def split: if_splits)

lemma remove_padding_errors:
  "remove_padding data = Inl e \<Longrightarrow> e = IndexError \<or> e = UnicodeDecodeError"
  by (auto simp: remove_padding_def py_last_def split: if_splits option.splits)

lemma decrypt_errors_after_container:
  assumes "decrypt_container payload = Inr parts" and "decrypt payload password = Inl e"
  shows "e = UnicodeEncodeError \<or> e = CipherLengthError \<or> e = IndexError
         \<or> e = UnicodeDecodeError"
proof -
  obtain salt iv encrypted where parts: "parts = (salt, iv, encrypted)"
    by (cases parts) auto
  note dd = decrypted_data_container [OF assms(1) [unfolded parts], of password]
  show ?thesis
  proof (cases "utf8_encode password")
    case None
    with dd assms(2) show ?thesis by (simp add: decrypt_def)
  next
    case (Some pw)
    show ?thesis
    proof (cases "decrypted_data payload password")
      case (Inl e')
      with dd Some have "cipher_decrypt
          \<lparr>cipher_keys = key_expansion (PBKDF2 pw salt 32 100000 SHA256), cipher_iv = iv\<rparr>
          encrypted = Inl e'"
        by simp
      then have "e' = CipherLengthError"
        by (rule cipher_decrypt_errors)
      with Inl assms(2) show ?thesis by (simp add: decrypt_def)
    next
      case (Inr data)
      with assms(2) have "remove_padding data = Inl e" by (simp add: decrypt_def)
      then show ?thesis by (auto dest: remove_padding_errors)
    qed
  qed
qed

lemma decrypt_empty_ciphertext:
  assumes "decrypt_container payload = Inr (salt, iv, [])"
  shows "decrypted_data payload password
           = (if utf8_encode password = None then Inl UnicodeEncodeError else Inr [])"
    and "decrypt payload password
           = Inl (if utf8_encode password = None then UnicodeEncodeError else IndexError)"
proof -
  show dd: "decrypted_data payload password
           = (if utf8_encode password = None then Inl UnicodeEncodeError else Inr [])"
    by (simp add: decrypted_data_container [OF assms] cipher_decrypt_def chunks_Nil
          split: option.splits)
  show "decrypt payload password
           = Inl (if utf8_encode password = None then UnicodeEncodeError else IndexError)"
    by (simp add: decrypt_def dd remove_padding_def py_last_def)
qed

subsection \<open>The sample inputs\<close>

lemma utf8_correct_horse:
  "utf8_encode (text_of ''correct horse'')
   = Some [0x63, 0x6f, 0x72, 0x72, 0x65, 0x63, 0x74, 0x20, 0x68, 0x6f, 0x72, 0x73, 0x65]"
  by (simp add: text_of_def utf8_encode_cp_def)

lemma b64decode_sample_payload: "b64decode sample_payload = Some (map of_nat [0..<66])"
  by code_simp

lemma b64decode_short_payload: "b64decode short_payload = Some (map of_nat [0..<10])"
  by code_simp

lemma b64decode_boundary_payload: "b64decode boundary_payload = Some (map of_nat [0..<48])"
  by code_simp

lemma b64decode_misaligned_payload: "b64decode misaligned_payload = Some (map of_nat [0..<51])"
  by code_simp

lemma b64decode_single_char: "b64decode (text_of ''A'') = None"
  by code_simp

section \<open>Backups made by the producer\<close>

lemma reference_encrypt_bytes_Inr:
  assumes "utf8_encode password = Some pw" and "length iv = 16" and "length data mod 16 = 0"
  shows "\<exists>ct. reference_encrypt_bytes data password salt iv = Inr (b64encode (salt @ iv @ ct))
           \<and> cipher_decrypt
                 \<lparr>cipher_keys = key_expansion (PBKDF2 pw salt 32 100000 SHA256), cipher_iv = iv\<rparr>
                 ct = Inr data"
proof -
  let ?key = "PBKDF2 pw salt 32 100000 SHA256"
  have "length ?key = 32" by (rule length_PBKDF2_32)
  from cipher_decrypt_encrypt [OF this assms(2,3)]
  obtain ct where
    "cipher_encrypt \<lparr>cipher_keys = key_expansion ?key, cipher_iv = iv\<rparr> data = Inr ct"
    "cipher_decrypt \<lparr>cipher_keys = key_expansion ?key, cipher_iv = iv\<rparr> ct = Inr data"
    by blast
  then show ?thesis
    using assms(1,2)
    by (intro exI [of _ ct]) (simp add: reference_encrypt_bytes_def AES_new_CBC_def length_PBKDF2_32)
qed

lemma reference_encrypt_bytes_cases:
  assumes "reference_encrypt_bytes data password salt iv = Inr container"
  obtains pw where "utf8_encode password = Some pw" and "length iv = 16"
    and "length data mod 16 = 0"
  using assms
  by (auto simp: reference_encrypt_bytes_def AES_new_CBC_def cipher_encrypt_def
        split: option.splits if_splits sum.splits)

lemma decrypted_data_reference:
  assumes "reference_encrypt_bytes data password salt iv = Inr container"
    and "length salt = 32"
  shows "decrypted_data container password = Inr data"
proof -
  from assms(1) obtain pw where pw: "utf8_encode password = Some pw" and iv: "length iv = 16"
    and al: "length data mod 16 = 0"
    by (rule reference_encrypt_bytes_cases)
  from reference_encrypt_bytes_Inr [OF pw iv al, of salt] assms(1)
  obtain ct where c: "container = b64encode (salt @ iv @ ct)"
    and d: "cipher_decrypt
              \<lparr>cipher_keys = key_expansion (PBKDF2 pw salt 32 100000 SHA256), cipher_iv = iv\<rparr>
              ct = Inr data"
    by auto
  have b: "b64decode container = Some (salt @ iv @ ct)"
    by (simp only: c b64decode_b64encode)
  have "48 \<le> length (salt @ iv @ ct)" using assms(2) iv by simp
  from decrypt_container_Some [OF b this]
  have "decrypt_container container = Inr (salt, iv, ct)"
    using assms(2) iv by simp
  from decrypted_data_container [OF this, of password] show ?thesis
    by (simp only: pw option.case d)
qed

lemma sample_container:
  assumes "length data mod 16 = 0"
  shows "reference_encrypt_bytes data sample_password sample_salt sample_iv
           = Inr (sample_container data)"
    and "decrypted_data (sample_container data) sample_password = Inr data"
proof -
  have pw: "utf8_encode sample_password
            = Some [0x63, 0x6f, 0x72, 0x72, 0x65, 0x63, 0x74, 0x20, 0x68, 0x6f, 0x72, 0x73, 0x65]"
    unfolding sample_password_def by (rule utf8_correct_horse)
  have iv: "length sample_iv = 16" by (simp add: sample_iv_def)
  from reference_encrypt_bytes_Inr [OF pw iv assms, of sample_salt]
  show r: "reference_encrypt_bytes data sample_password sample_salt sample_iv
           = Inr (sample_container data)"
    by (auto simp: sample_container_def)
  have "length sample_salt = 32" by (simp add: sample_salt_def)
  with r show "decrypted_data (sample_container data) sample_password = Inr data"
    by (rule decrypted_data_reference)
qed

subsection \<open>Padding\<close>

lemma py_slice_to_neg:
  "0 < p \<Longrightarrow> py_slice_to xs (- int p) = take (length xs - p) xs"
  by (simp add: py_slice_to_def nat_diff_distrib' max_def) 

lemma remove_padding_eq:
  assumes "data \<noteq> []"
  shows "remove_padding data =
           (case utf8_decode (if unat (last data) = 0 then []
                              else take (length data - unat (last data)) data) of
              None \<Rightarrow> Inl UnicodeDecodeError
            | Some s \<Rightarrow> Inr s)"
proof (cases "unat (last data) = 0")
  case True
  then show ?thesis using assms by (simp add: remove_padding_def py_last_def py_slice_to_def)
next
  case False
  then have "py_slice_to data (- int (unat (last data)))
             = take (length data - unat (last data)) data"
    by (intro py_slice_to_neg) simp
  with False assms show ?thesis
    by (simp only: remove_padding_def py_last_def if_False sum.case)
qed

lemma remove_padding_pkcs7:
  "remove_padding (pkcs7_pad m)
   = (case utf8_decode m of None \<Rightarrow> Inl UnicodeDecodeError | Some s \<Rightarrow> Inr s)"
proof -
  define p where "p = 16 - length m mod 16"
  have p: "0 < p" "p \<le> 16" by (simp_all add: p_def)
  have pad: "pkcs7_pad m = m @ replicate p (of_nat p)"
    by (simp add: pkcs7_pad_def p_def)
  have ne: "pkcs7_pad m \<noteq> []" using p by (simp add: pad)
  have "last (pkcs7_pad m) = of_nat p" using p by (simp add: pad)
  moreover have "unat (of_nat p :: byte) = p" using p by (intro unat_byte_of_nat) simp
  ultimately have l: "unat (last (pkcs7_pad m)) = p" by simp
  have "take (length (pkcs7_pad m) - p) (pkcs7_pad m) = m" by (simp add: pad)
  with p show ?thesis
    by (simp add: remove_padding_eq [OF ne] l)
qed

lemma reference_container:
  assumes "reference_encrypt_bytes data password salt iv = Inr container"
    and "length salt = 32"
  obtains ct where "decrypt_container container = Inr (salt, iv, ct)"
    and "length ct = length data" and "length data mod 16 = 0"
proof -
  from assms(1) obtain pw where pw: "utf8_encode password = Some pw" and iv: "length iv = 16"
    and al: "length data mod 16 = 0"
    by (rule reference_encrypt_bytes_cases)
  from reference_encrypt_bytes_Inr [OF pw iv al, of salt] assms(1)
  obtain ct where c: "container = b64encode (salt @ iv @ ct)"
    and d: "cipher_decrypt
              \<lparr>cipher_keys = key_expansion (PBKDF2 pw salt 32 100000 SHA256), cipher_iv = iv\<rparr>
              ct = Inr data"
    by auto
  have b: "b64decode container = Some (salt @ iv @ ct)"
    by (simp only: c b64decode_b64encode)
  have "48 \<le> length (salt @ iv @ ct)" using assms(2) iv by simp
  from decrypt_container_Some [OF b this]
  have 1: "decrypt_container container = Inr (salt, iv, ct)"
    using assms(2) iv by simp
  have 2: "length ct = length data"
    using length_cipher_decrypt [OF length_PBKDF2_32 iv d] by simp
  from 1 2 al show ?thesis by (rule that)
qed

lemma decrypt_of_padded:
  assumes "decrypted_data container password = Inr (pkcs7_pad data)"
    and "utf8_encode plaintext = Some data"
  shows "decrypt container password = Inr plaintext"
  by (simp add: decrypt_def assms(1) remove_padding_pkcs7 utf8_decode_encode [OF assms(2)])

text \<open>
  Any passphrase on a backup of the producer: the cipher accepts the ciphertext and the
  buffer is not empty, so the only errors left are the two of the text codec.
\<close>

lemma decrypt_reference_outcomes:
  assumes "reference_encrypt_bytes data password salt iv = Inr container"
    and "length salt = 32" and "data \<noteq> []"
  shows "decrypt container password' = Inl UnicodeEncodeError
         \<or> decrypt container password' = Inl UnicodeDecodeError
         \<or> (\<exists>s. decrypt container password' = Inr s)"
proof (cases "utf8_encode password'")
  case None
  from assms(1,2) obtain ct where "decrypt_container container = Inr (salt, iv, ct)"
    by (rule reference_container)
  from decrypted_data_container [OF this, of password'] None
  show ?thesis by (simp add: decrypt_def)
next
  case (Some pw')
  from assms(1,2) obtain ct where c: "decrypt_container container = Inr (salt, iv, ct)"
    and l: "length ct = length data" and al: "length data mod 16 = 0"
    by (rule reference_container)
  let ?cipher = "\<lparr>cipher_keys = key_expansion (PBKDF2 pw' salt 32 100000 SHA256),
                  cipher_iv = iv\<rparr>"
  from decrypted_data_container [OF c, of password'] Some
  have dd: "decrypted_data container password' = cipher_decrypt ?cipher ct"
    by simp
  from al l obtain buf where buf: "cipher_decrypt ?cipher ct = Inr buf"
    by (auto simp: cipher_decrypt_def)
  have iv: "length iv = 16" using decrypt_container_lengths [OF c] by simp
  have "length buf = length ct"
    using length_PBKDF2_32 iv buf by (rule length_cipher_decrypt)
  with l assms(3) have "buf \<noteq> []" by auto
  then show ?thesis
    by (auto simp: decrypt_def dd buf remove_padding_eq split: option.splits)
qed

subsection \<open>The scenario of the specification\<close>

lemma pkcs7_pad_empty_array: "pkcs7_pad [0x5b, 0x5d] = padded_empty_array"
  unfolding padded_empty_array_def by code_simp

lemma utf8_empty_array: "utf8_encode (text_of ''[]'') = Some [0x5b, 0x5d]"
  by (simp add: text_of_def utf8_encode_cp_def)

lemma reference_encrypt_empty_array:
  "reference_encrypt (text_of ''[]'') sample_password sample_salt sample_iv
     = Inr (sample_container padded_empty_array)"
proof -
  have "length padded_empty_array mod 16 = 0" by (simp add: padded_empty_array_def)
  then show ?thesis
    by (simp only: reference_encrypt_def utf8_empty_array option.case pkcs7_pad_empty_array
          sample_container(1))
qed

lemma sample_password_nul:
  "derive_key (sample_password @ [0]) sample_salt = derive_key sample_password sample_salt"
  unfolding sample_password_def using utf8_correct_horse
  by (rule derive_key_append_nul) simp

section \<open>The claims\<close>

subsection \<open>Round trip\<close>

text \<open>
  C1. For every plaintext, passphrase (texts, so each has a UTF-8 encoding), 32-byte salt
  and 16-byte IV, the matching reference encryption (PBKDF2-HMAC-SHA256 with 100,000
  iterations and a 32-byte key, AES-256-CBC, PKCS#7 padding, Base64 of salt, IV and
  ciphertext) produces a container, and \<^verbatim>\<open>decrypt\<close> of that container under the same
  passphrase returns exactly the plaintext. The witness is the scenario of the specification: the plaintext \<^verbatim>\<open>[]\<close>,
  the passphrase \<^verbatim>\<open>correct horse\<close>, the salt of 32 bytes 01 and the IV of 16 bytes 02.
\<close>

theorem round_trip:
  assumes "utf8_encode plaintext = Some data" and "utf8_encode password = Some pw"
    and "length salt = 32" and "length iv = 16"
  shows "\<exists>container. reference_encrypt plaintext password salt iv = Inr container
           \<and> decrypt container password = Inr plaintext"
proof -
  have "length (pkcs7_pad data) mod 16 = 0"
    by (simp add: pkcs7_pad_def) presburger
  from reference_encrypt_bytes_Inr [OF assms(2,4) this, of salt]
  obtain container
    where enc: "reference_encrypt_bytes (pkcs7_pad data) password salt iv = Inr container"
    by blast
  then have r: "reference_encrypt plaintext password salt iv = Inr container"
    by (simp add: reference_encrypt_def assms(1))
  from enc assms(3) have "decrypted_data container password = Inr (pkcs7_pad data)"
    by (rule decrypted_data_reference)
  then have "decrypt container password = remove_padding (pkcs7_pad data)"
    by (simp add: decrypt_def)
  also have "\<dots> = Inr plaintext"
    by (simp add: remove_padding_pkcs7 utf8_decode_encode [OF assms(1)])
  finally show ?thesis using r by blast
qed

theorem round_trip_witness:
  "utf8_encode (text_of ''[]'') = Some [0x5b, 0x5d]
   \<and> utf8_encode sample_password
       = Some [0x63, 0x6f, 0x72, 0x72, 0x65, 0x63, 0x74, 0x20, 0x68, 0x6f, 0x72, 0x73, 0x65]
   \<and> length sample_salt = 32 \<and> length sample_iv = 16
   \<and> reference_encrypt (text_of ''[]'') sample_password sample_salt sample_iv
       = Inr (sample_container padded_empty_array)
   \<and> decrypt (sample_container padded_empty_array) sample_password = Inr (text_of ''[]'')"
proof -
  have w: "utf8_encode sample_password
       = Some [0x63, 0x6f, 0x72, 0x72, 0x65, 0x63, 0x74, 0x20, 0x68, 0x6f, 0x72, 0x73, 0x65]"
    unfolding sample_password_def by (rule utf8_correct_horse)
  have s: "length sample_salt = 32" and i: "length sample_iv = 16"
    by (simp_all add: sample_salt_def sample_iv_def)
  from round_trip [OF utf8_empty_array w s i] reference_encrypt_empty_array
  have "decrypt (sample_container padded_empty_array) sample_password = Inr (text_of ''[]'')"
    by auto
  with utf8_empty_array w s i reference_encrypt_empty_array show ?thesis
    by (simp only: simp_thms)
qed

subsection \<open>Key derivation\<close>

text \<open>
  C2. For every passphrase and salt, \<^verbatim>\<open>derive_key(password, salt)\<close> equals the reference
  PBKDF2 with HMAC-SHA256 (RFC 8018 over RFC 2104, \<open>reference_pbkdf2_hmac_sha256\<close>) on
  the UTF-8 encoding of the passphrase as the base secret, the given salt, 100,000
  iterations and a derived-key length of 32 bytes, and the key has 32 bytes. (A
  \<^verbatim>\<open>str\<close> with a lone surrogate has no UTF-8 encoding: \<^verbatim>\<open>password.encode\<close> raises.) It is
  deterministic: two calls with identical inputs give the same result. The reference is
  the published function: for the password \<^verbatim>\<open>password\<close> and the salt \<^verbatim>\<open>salt\<close> it gives
  the published 32-byte keys after one and after two iterations.
\<close>

theorem derive_key_pbkdf2:
  "derive_key password salt =
     (case utf8_encode password of
        None \<Rightarrow> Inl UnicodeEncodeError
      | Some pw \<Rightarrow> Inr (reference_pbkdf2_hmac_sha256 pw salt 100000 32))
   \<and> (\<forall>key. derive_key password salt = Inr key \<longrightarrow> length key = 32)
   \<and> (\<forall>password' salt'. password' = password \<and> salt' = salt
          \<longrightarrow> derive_key password' salt' = derive_key password salt)
   \<and> reference_pbkdf2_hmac_sha256 (map of_char ''password'') (map of_char ''salt'') 1 32
       = [0x12, 0x0f, 0xb6, 0xcf, 0xfc, 0xf8, 0xb3, 0x2c, 0x43, 0xe7, 0x22, 0x52, 0x56, 0xc4,
          0xf8, 0x37, 0xa8, 0x65, 0x48, 0xc9, 0x2c, 0xcc, 0x35, 0x48, 0x08, 0x05, 0x98, 0x7c,
          0xb7, 0x0b, 0xe1, 0x7b]
   \<and> reference_pbkdf2_hmac_sha256 (map of_char ''password'') (map of_char ''salt'') 2 32
       = [0xae, 0x4d, 0x0c, 0x95, 0xaf, 0x6b, 0x46, 0xd3, 0x2d, 0x0a, 0xdf, 0xf9, 0x28, 0xf0,
          0x6d, 0xd0, 0x2a, 0x30, 0x3f, 0x8e, 0xf3, 0xc2, 0x51, 0xdf, 0xd6, 0xe2, 0xd8, 0x5a,
          0x95, 0x47, 0x4c, 0x43]"
proof -
  have r: "PBKDF2 pw salt 32 100000 SHA256 = reference_pbkdf2_hmac_sha256 pw salt 100000 32"
    for pw
    by (rule PBKDF2_SHA256_rfc8018) simp
  have 1: "derive_key password salt =
     (case utf8_encode password of
        None \<Rightarrow> Inl UnicodeEncodeError
      | Some pw \<Rightarrow> Inr (reference_pbkdf2_hmac_sha256 pw salt 100000 32))"
    by (simp only: derive_key_def KEY_LENGTH_def ITERATION_COUNT_def r)
  have 2: "\<forall>key. derive_key password salt = Inr key \<longrightarrow> length key = 32"
    by (auto dest: derive_key_length)
  have p: "map of_char ''password'' = vector_password" "map of_char ''salt'' = vector_salt"
    by (simp_all add: vector_password_def vector_salt_def)
  have 3: "reference_pbkdf2_hmac_sha256 (map of_char ''password'') (map of_char ''salt'') 1 32
           = vector_U1"
    by (simp only: p pbkdf2_vector_1)
  have 4: "reference_pbkdf2_hmac_sha256 (map of_char ''password'') (map of_char ''salt'') 2 32
           = vector_key"
    by (simp only: p pbkdf2_vector_2)
  from 1 2 3 4 show ?thesis
    unfolding vector_U1_def vector_key_def by blast
qed

theorem derive_key_pbkdf2_witness:
  "derive_key (text_of ''correct horse'') (replicate 32 1)
     = Inr (reference_pbkdf2_hmac_sha256
              [0x63, 0x6f, 0x72, 0x72, 0x65, 0x63, 0x74, 0x20, 0x68, 0x6f, 0x72, 0x73, 0x65]
              (replicate 32 1) 100000 32)
   \<and> length (reference_pbkdf2_hmac_sha256
              [0x63, 0x6f, 0x72, 0x72, 0x65, 0x63, 0x74, 0x20, 0x68, 0x6f, 0x72, 0x73, 0x65]
              (replicate 32 1) 100000 32) = 32
   \<and> text_of ''correct '' @ text_of ''horse'' = text_of ''correct horse''
   \<and> replicate 16 1 @ replicate 16 1 = (replicate 32 1 :: bytes)
   \<and> derive_key (text_of ''correct '' @ text_of ''horse'') (replicate 16 1 @ replicate 16 1)
       = derive_key (text_of ''correct horse'') (replicate 32 1)"
proof -
  note th = derive_key_pbkdf2 [of "text_of ''correct horse''" "replicate 32 1"]
  have eq: "derive_key (text_of ''correct horse'') (replicate 32 1)
     = Inr (reference_pbkdf2_hmac_sha256
              [0x63, 0x6f, 0x72, 0x72, 0x65, 0x63, 0x74, 0x20, 0x68, 0x6f, 0x72, 0x73, 0x65]
              (replicate 32 1) 100000 32)"
    using th [THEN conjunct1] by (simp only: utf8_correct_horse option.case)
  have len: "length (reference_pbkdf2_hmac_sha256
              [0x63, 0x6f, 0x72, 0x72, 0x65, 0x63, 0x74, 0x20, 0x68, 0x6f, 0x72, 0x73, 0x65]
              (replicate 32 1) 100000 32) = 32"
    using th [THEN conjunct2, THEN conjunct1] eq by blast
  have a: "text_of ''correct '' @ text_of ''horse'' = text_of ''correct horse''"
    by (simp add: text_of_def)
  have b: "replicate 16 1 @ replicate 16 1 = (replicate 32 1 :: bytes)"
    by (simp flip: replicate_add)
  from th [THEN conjunct2, THEN conjunct2, THEN conjunct1] a b
  have "derive_key (text_of ''correct '' @ text_of ''horse'') (replicate 16 1 @ replicate 16 1)
       = derive_key (text_of ''correct horse'') (replicate 32 1)"
    by blast
  with eq len a b show ?thesis by (simp only: simp_thms)
qed

subsection \<open>Padding removal\<close>

text \<open>
  C3. For every decrypted buffer whose last byte \<open>p\<close> is between 1 and the length of the
  buffer, \<^verbatim>\<open>decrypt\<close> cuts exactly the last \<open>p\<close> bytes and returns the rest, decoded as
  UTF-8 (line 56), whatever the bytes cut are: nothing checks that they all equal \<open>p\<close>,
  and any value of \<open>p\<close> from 1 to 255 that fits the buffer is taken. A text that
  \<^verbatim>\<open>decrypt\<close> returns is the text whose UTF-8 encoding is that rest. In the witness
  the buffer ends in 1, 2, 3 and three bytes are cut.
\<close>

theorem padding_removal_policy:
  assumes "decrypted_data payload password = Inr buf"
    and "buf \<noteq> []"
    and "1 \<le> unat (last buf)" and "unat (last buf) \<le> length buf"
  shows "decrypt payload password
           = (case utf8_decode (take (length buf - unat (last buf)) buf) of
                None \<Rightarrow> Inl UnicodeDecodeError
              | Some s \<Rightarrow> Inr s)
         \<and> (\<forall>s. decrypt payload password = Inr s
                \<longrightarrow> utf8_encode s = Some (take (length buf - unat (last buf)) buf))"
proof -
  have d: "decrypt payload password
           = (case utf8_decode (take (length buf - unat (last buf)) buf) of
                None \<Rightarrow> Inl UnicodeDecodeError
              | Some s \<Rightarrow> Inr s)"
    using assms(3) by (simp add: decrypt_def assms(1) remove_padding_eq [OF assms(2)])
  then have "utf8_encode s = Some (take (length buf - unat (last buf)) buf)"
    if "decrypt payload password = Inr s" for s
    using that by (auto split: option.splits intro: utf8_encode_decode)
  with d show ?thesis by blast
qed

theorem padding_removal_policy_witness:
  "decrypted_data (sample_container lax_padding_buffer) sample_password = Inr lax_padding_buffer
   \<and> lax_padding_buffer \<noteq> []
   \<and> 1 \<le> unat (last lax_padding_buffer)
   \<and> unat (last lax_padding_buffer) \<le> length lax_padding_buffer
   \<and> take 3 (drop 13 lax_padding_buffer) = [1, 2, 3]
   \<and> decrypt (sample_container lax_padding_buffer) sample_password
       = Inr (text_of ''[]           '')
   \<and> utf8_encode (text_of ''[]           '') = Some (take 13 lax_padding_buffer)"
proof -
  have al: "length lax_padding_buffer mod 16 = 0" by (simp add: lax_padding_buffer_def)
  note d = sample_container(2) [OF al]
  have ne: "lax_padding_buffer \<noteq> []" by (simp add: lax_padding_buffer_def)
  have l: "unat (last lax_padding_buffer) = 3" by (simp add: lax_padding_buffer_def)
  have p1: "1 \<le> unat (last lax_padding_buffer)" by (simp add: l)
  have p2: "unat (last lax_padding_buffer) \<le> length lax_padding_buffer"
    by (simp add: l) (simp add: lax_padding_buffer_def)
  have t: "take (length lax_padding_buffer - unat (last lax_padding_buffer)) lax_padding_buffer
           = [0x5b, 0x5d, 0x20, 0x20, 0x20, 0x20, 0x20, 0x20, 0x20, 0x20, 0x20, 0x20, 0x20]"
    unfolding l by (simp add: lax_padding_buffer_def)
  have t': "take 13 lax_padding_buffer
           = [0x5b, 0x5d, 0x20, 0x20, 0x20, 0x20, 0x20, 0x20, 0x20, 0x20, 0x20, 0x20, 0x20]"
    by (simp add: lax_padding_buffer_def)
  have u: "utf8_decode [0x5b, 0x5d, 0x20, 0x20, 0x20, 0x20, 0x20, 0x20, 0x20, 0x20, 0x20, 0x20,
                        0x20] = Some (text_of ''[]           '')"
    by (simp add: text_of_def)
  have n: "take 3 (drop 13 lax_padding_buffer) = [1, 2, 3]"
    by (simp add: lax_padding_buffer_def)
  note th = padding_removal_policy [OF d ne p1 p2, unfolded t u option.case]
  from th have r: "decrypt (sample_container lax_padding_buffer) sample_password
       = Inr (text_of ''[]           '')"
    by (rule conjunct1)
  from th r have "utf8_encode (text_of ''[]           '') = Some (take 13 lax_padding_buffer)"
    unfolding t' by blast
  with r d ne p1 p2 n show ?thesis by (simp only: simp_thms)
qed

text \<open>
  C4, as the code has it. For every input where the last byte \<open>p\<close> of the decrypted
  buffer exceeds the length of the buffer, no error is raised: the slice of line 54 is
  clamped to the empty buffer and \<^verbatim>\<open>decrypt\<close> returns the empty string. The code has
  no check of the padding range.
\<close>

theorem padding_out_of_range:
  assumes "decrypted_data payload password = Inr buf"
    and "buf \<noteq> []"
    and "length buf < unat (last buf)"
  shows "decrypt payload password = Inr []"
  using assms(3) by (simp add: decrypt_def assms(1) remove_padding_eq [OF assms(2)])

theorem padding_out_of_range_witness:
  "decrypted_data (sample_container full_padding_buffer) sample_password
     = Inr full_padding_buffer
   \<and> full_padding_buffer \<noteq> []
   \<and> length full_padding_buffer < unat (last full_padding_buffer)
   \<and> decrypt (sample_container full_padding_buffer) sample_password = Inr []"
proof -
  have al: "length full_padding_buffer mod 16 = 0" by (simp add: full_padding_buffer_def)
  note d = sample_container(2) [OF al]
  have ne: "full_padding_buffer \<noteq> []" by (simp add: full_padding_buffer_def)
  have p: "length full_padding_buffer < unat (last full_padding_buffer)"
    by (simp add: full_padding_buffer_def)
  from padding_out_of_range [OF d ne p] d ne p show ?thesis by (simp only: simp_thms)
qed

text \<open>
  The claim as the specification states it (an error instead of a result) fails at the
  backup whose decrypted buffer has 16 bytes and ends in the byte 17: \<^verbatim>\<open>decrypt\<close> returns
  the empty string.
\<close>

theorem padding_out_of_range_counterexample:
  "decrypted_data (sample_container overlong_padding_buffer) sample_password
     = Inr overlong_padding_buffer
   \<and> length overlong_padding_buffer = 16
   \<and> unat (last overlong_padding_buffer) = 17
   \<and> decrypt (sample_container overlong_padding_buffer) sample_password = Inr (text_of '''')"
proof -
  have al: "length overlong_padding_buffer mod 16 = 0"
    by (simp add: overlong_padding_buffer_def)
  note d = sample_container(2) [OF al]
  have ne: "overlong_padding_buffer \<noteq> []" by (simp add: overlong_padding_buffer_def)
  have l: "length overlong_padding_buffer = 16" "unat (last overlong_padding_buffer) = 17"
    by (simp_all add: overlong_padding_buffer_def)
  have "decrypt (sample_container overlong_padding_buffer) sample_password = Inr []"
    by (simp add: decrypt_def d remove_padding_eq [OF ne] l)
  with d l show ?thesis by (simp add: text_of_def)
qed

text \<open>
  C10. For every container whose decrypted buffer is not empty and ends in the byte 0,
  \<^verbatim>\<open>decrypt\<close> returns the empty string: the stop of the slice is \<^verbatim>\<open>-0\<close>, that is 0, and
  the whole buffer is cut.
\<close>

theorem zero_padding_byte:
  assumes "decrypted_data payload password = Inr buf"
    and "buf \<noteq> []"
    and "last buf = 0"
  shows "decrypt payload password = Inr []"
  using assms(3) by (simp add: decrypt_def assms(1) remove_padding_eq [OF assms(2)])

theorem zero_padding_byte_witness:
  "decrypted_data (sample_container zero_padding_buffer) sample_password
     = Inr zero_padding_buffer
   \<and> zero_padding_buffer \<noteq> []
   \<and> last zero_padding_buffer = 0
   \<and> decrypt (sample_container zero_padding_buffer) sample_password = Inr []"
proof -
  have al: "length zero_padding_buffer mod 16 = 0" by (simp add: zero_padding_buffer_def)
  note d = sample_container(2) [OF al]
  have ne: "zero_padding_buffer \<noteq> []" by (simp add: zero_padding_buffer_def)
  have z: "last zero_padding_buffer = 0" by (simp add: zero_padding_buffer_def)
  from zero_padding_byte [OF d ne z] d ne z show ?thesis by (simp only: simp_thms)
qed

subsection \<open>The container\<close>

text \<open>
  C5. For every Base64 payload whose decoded length is at least 48 bytes, the decoder
  gives the salt as the decoded bytes [0:32], the IV as the bytes [32:48] and the
  ciphertext as the bytes [48:]: 32 and 16 bytes and the rest, contiguous, not
  overlapping, and together the decoded payload again.
\<close>

theorem container_decoding:
  assumes "b64decode payload = Some combined" and "48 \<le> length combined"
  shows "decrypt_container payload
           = Inr (take 32 combined, take 16 (drop 32 combined), drop 48 combined)
         \<and> length (take 32 combined) = 32
         \<and> length (take 16 (drop 32 combined)) = 16
         \<and> take 32 combined @ take 16 (drop 32 combined) @ drop 48 combined = combined"
proof -
  have "take 16 (drop 32 combined) @ drop 16 (drop 32 combined) = drop 32 combined"
    by (rule append_take_drop_id)
  then have "take 16 (drop 32 combined) @ drop 48 combined = drop 32 combined"
    by simp
  then show ?thesis
    using assms by (simp add: decrypt_container_Some)
qed

theorem container_decoding_witness:
  "b64decode sample_payload = Some (map of_nat [0..<66])
   \<and> 48 \<le> length (map of_nat [0..<66] :: bytes)
   \<and> decrypt_container sample_payload
       = Inr (map of_nat [0..<32], map of_nat [32..<48], map of_nat [48..<66])"
proof -
  have len: "48 \<le> length (map of_nat [0..<66] :: bytes)" by simp
  have "take 32 (map of_nat [0..<66] :: bytes) = map of_nat [0..<32]"
       "take 16 (drop 32 (map of_nat [0..<66] :: bytes)) = map of_nat [32..<48]"
       "drop 48 (map of_nat [0..<66] :: bytes) = map of_nat [48..<66]"
    by (simp_all add: take_map drop_map)
  then show ?thesis
    using container_decoding [OF b64decode_sample_payload len] b64decode_sample_payload
    by simp
qed

text \<open>
  C6. For every payload that fails to Base64-decode or decodes to fewer than 48 bytes,
  the decoding step raises MalformedContainer, and \<^verbatim>\<open>decrypt\<close> raises that same error
  whatever the passphrase is: key derivation is not reached (it would raise on a
  passphrase that cannot be encoded, and it does not). For every payload that decodes to
  at least 48 bytes the decoding step succeeds and no error of \<^verbatim>\<open>decrypt\<close> is a
  MalformedContainer.
\<close>

theorem malformed_container:
  "((b64decode payload = None
      \<or> (\<exists>combined. b64decode payload = Some combined \<and> length combined < 48))
     \<longrightarrow> (\<exists>e. MalformedContainer e \<and> decrypt_container payload = Inl e
              \<and> (\<forall>password. decrypt payload password = Inl e)))
   \<and> ((\<exists>combined. b64decode payload = Some combined \<and> 48 \<le> length combined)
     \<longrightarrow> (\<exists>parts. decrypt_container payload = Inr parts)
         \<and> (\<forall>password e. decrypt payload password = Inl e \<longrightarrow> \<not> MalformedContainer e))"
proof (intro conjI impI)
  assume "b64decode payload = None
      \<or> (\<exists>combined. b64decode payload = Some combined \<and> length combined < 48)"
  then consider "decrypt_container payload = Inl Base64Error"
    | "decrypt_container payload = Inl InvalidFormat"
    by (auto dest: decrypt_container_None decrypt_container_short)
  then show "\<exists>e. MalformedContainer e \<and> decrypt_container payload = Inl e
              \<and> (\<forall>password. decrypt payload password = Inl e)"
    by cases (auto simp: MalformedContainer_def decrypt_container_Inl)
next
  assume "\<exists>combined. b64decode payload = Some combined \<and> 48 \<le> length combined"
  then show "\<exists>parts. decrypt_container payload = Inr parts"
    by (auto dest: decrypt_container_Some)
next
  assume "\<exists>combined. b64decode payload = Some combined \<and> 48 \<le> length combined"
  then obtain parts where "decrypt_container payload = Inr parts"
    by (auto dest: decrypt_container_Some)
  then show "\<forall>password e. decrypt payload password = Inl e \<longrightarrow> \<not> MalformedContainer e"
    by (auto simp: MalformedContainer_def dest: decrypt_errors_after_container)
qed

theorem malformed_container_witness:
  "b64decode short_payload = Some (map of_nat [0..<10])
   \<and> (\<forall>password. decrypt short_payload password = Inl InvalidFormat)
   \<and> b64decode (text_of ''A'') = None
   \<and> (\<forall>password. decrypt (text_of ''A'') password = Inl Base64Error)
   \<and> b64decode boundary_payload = Some (map of_nat [0..<48])
   \<and> decrypt boundary_payload [] = Inl IndexError
   \<and> \<not> MalformedContainer IndexError"
proof -
  have short: "length (map of_nat [0..<10] :: bytes) < 48" by simp
  have long: "48 \<le> length (map of_nat [0..<48] :: bytes)" by simp
  from malformed_container [of short_payload] b64decode_short_payload short
  obtain e where e: "decrypt_container short_payload = Inl e"
      "\<forall>password. decrypt short_payload password = Inl e"
    by blast
  from e(1) decrypt_container_short [OF b64decode_short_payload short]
  have 1: "e = InvalidFormat" by simp
  from malformed_container [of "text_of ''A''"] b64decode_single_char
  obtain e' where e': "decrypt_container (text_of ''A'') = Inl e'"
      "\<forall>password. decrypt (text_of ''A'') password = Inl e'"
    by blast
  from e'(1) decrypt_container_None [OF b64decode_single_char]
  have 2: "e' = Base64Error" by simp
  have "decrypt_container boundary_payload
        = Inr (take 32 (map of_nat [0..<48]), take 16 (drop 32 (map of_nat [0..<48])), [])"
    using decrypt_container_Some [OF b64decode_boundary_payload long] by simp
  then have 3: "decrypt boundary_payload [] = Inl IndexError"
    by (simp add: decrypt_empty_ciphertext(2))
  from malformed_container [of boundary_payload] b64decode_boundary_payload long
  have "\<forall>password e. decrypt boundary_payload password = Inl e \<longrightarrow> \<not> MalformedContainer e"
    by blast
  with 3 have 4: "\<not> MalformedContainer IndexError" by blast
  from e(2) e'(2) 1 2 3 4 b64decode_short_payload b64decode_single_char
    b64decode_boundary_payload
  show ?thesis by simp
qed

text \<open>
  C7, as the code has it. A container of exactly 48 decoded bytes decodes without
  MalformedContainer, to a 32-byte salt, a 16-byte IV and an empty ciphertext;
  \<^verbatim>\<open>cipher.decrypt\<close> accepts the empty ciphertext and returns the empty buffer; reading
  its last byte (line 53) then raises IndexError. So \<^verbatim>\<open>decrypt\<close> fails, but neither with
  the cipher's length error nor by returning an empty plaintext. (A passphrase that
  cannot be encoded raises before that, in \<^verbatim>\<open>derive_key\<close>.)
\<close>

theorem length_boundary:
  assumes "b64decode payload = Some combined" and "length combined = 48"
  shows "decrypt_container payload = Inr (take 32 combined, drop 32 combined, [])
         \<and> decrypted_data payload password
             = (if utf8_encode password = None then Inl UnicodeEncodeError else Inr [])
         \<and> decrypt payload password
             = Inl (if utf8_encode password = None then UnicodeEncodeError else IndexError)"
proof -
  have "decrypt_container payload = Inr (take 32 combined, drop 32 combined, [])"
    using decrypt_container_Some [OF assms(1)] assms(2) by simp
  then show ?thesis
    by (simp add: decrypt_empty_ciphertext)
qed

theorem length_boundary_witness:
  "b64decode boundary_payload = Some (map of_nat [0..<48])
   \<and> length (map of_nat [0..<48] :: bytes) = 48
   \<and> decrypted_data boundary_payload (text_of ''correct horse'') = Inr []
   \<and> decrypt boundary_payload (text_of ''correct horse'') = Inl IndexError"
proof -
  have len: "length (map of_nat [0..<48] :: bytes) = 48" by simp
  from length_boundary [OF b64decode_boundary_payload len, of "text_of ''correct horse''"]
    b64decode_boundary_payload len
  show ?thesis by (simp add: utf8_correct_horse)
qed

text \<open>
  The claim as the specification states it (failure with InvalidCiphertextLength, or an
  empty plaintext) fails at the 48-byte container \<open>boundary_payload\<close> with the passphrase
  \<^verbatim>\<open>correct horse\<close>.
\<close>

theorem length_boundary_counterexample:
  "b64decode boundary_payload = Some (map of_nat [0..<48])
   \<and> length (map of_nat [0..<48] :: bytes) = 48
   \<and> decrypt boundary_payload (text_of ''correct horse'') \<noteq> Inl CipherLengthError
   \<and> decrypt boundary_payload (text_of ''correct horse'') \<noteq> Inr []"
proof -
  have long: "48 \<le> length (map of_nat [0..<48] :: bytes)" by simp
  have "decrypt_container boundary_payload
        = Inr (take 32 (map of_nat [0..<48]), take 16 (drop 32 (map of_nat [0..<48])), [])"
    using decrypt_container_Some [OF b64decode_boundary_payload long] by simp
  then have "decrypt boundary_payload (text_of ''correct horse'') = Inl IndexError"
    by (simp add: decrypt_empty_ciphertext(2) utf8_correct_horse)
  with b64decode_boundary_payload show ?thesis by simp
qed

subsection \<open>Block alignment\<close>

text \<open>
  C8. For every container whose ciphertext region has a length that is not a multiple of
  16 bytes, \<^verbatim>\<open>decrypt\<close> returns no plaintext: \<^verbatim>\<open>cipher.decrypt\<close> raises its length error
  (the specification's InvalidCiphertextLength). This holds for every passphrase that is
  text with a UTF-8 encoding; a \<^verbatim>\<open>str\<close> with a lone surrogate raises in \<^verbatim>\<open>derive_key\<close>,
  one line earlier.
\<close>

theorem block_alignment:
  assumes "decrypt_container payload = Inr (salt, iv, encrypted)"
    and "length encrypted mod 16 \<noteq> 0"
  shows "decrypt payload password
           = Inl (if utf8_encode password = None then UnicodeEncodeError else CipherLengthError)"
  using assms(2)
  by (simp add: decrypt_def decrypted_data_container [OF assms(1)] cipher_decrypt_def
        split: option.splits)

theorem block_alignment_witness:
  "decrypt_container misaligned_payload
     = Inr (map of_nat [0..<32], map of_nat [32..<48], [48, 49, 50])
   \<and> length [48, 49, 50 :: byte] mod 16 \<noteq> 0
   \<and> decrypt misaligned_payload (text_of ''correct horse'') = Inl CipherLengthError"
proof -
  have long: "48 \<le> length (map of_nat [0..<51] :: bytes)" by simp
  have "take 32 (map of_nat [0..<51] :: bytes) = map of_nat [0..<32]"
       "take 16 (drop 32 (map of_nat [0..<51] :: bytes)) = map of_nat [32..<48]"
       "drop 48 (map of_nat [0..<51] :: bytes) = [48, 49, 50]"
    by (simp_all add: take_map drop_map upt_rec)
  with decrypt_container_Some [OF b64decode_misaligned_payload long]
  have c: "decrypt_container misaligned_payload
     = Inr (map of_nat [0..<32], map of_nat [32..<48], [48, 49, 50])"
    by simp
  have m: "length [48, 49, 50 :: byte] mod 16 \<noteq> 0" by simp
  from block_alignment [OF c m, of "text_of ''correct horse''"] c m
  show ?thesis by (simp add: utf8_correct_horse)
qed

subsection \<open>A wrong passphrase\<close>

text \<open>
  C9, as the code has it. A container produced with one passphrase and decrypted with
  another: \<^verbatim>\<open>decrypt\<close> has no check of the passphrase and no check of the padding
  range. It fails when the passphrase cannot be encoded or at the UTF-8 decoding step,
  or it returns a text; and it returns the original plaintext whenever the other
  passphrase derives the same key. That happens for different passphrases: HMAC fills a
  key shorter than its block of 64 bytes with zero bytes, so a passphrase and the same
  passphrase followed by a NUL character derive the same key.
\<close>

theorem wrong_passphrase:
  assumes "reference_encrypt plaintext password salt iv = Inr container"
    and "length salt = 32" and "length iv = 16"
  shows "(derive_key password' salt = derive_key password salt
            \<longrightarrow> decrypt container password' = Inr plaintext)
         \<and> (\<forall>pw. utf8_encode password = Some pw \<and> length pw < 64
                \<longrightarrow> derive_key (password @ [0]) salt = derive_key password salt)
         \<and> (decrypt container password' = Inl UnicodeEncodeError
              \<or> decrypt container password' = Inl UnicodeDecodeError
              \<or> (\<exists>s. decrypt container password' = Inr s))"
proof (intro conjI impI allI)
  from assms(1) obtain data where data: "utf8_encode plaintext = Some data"
    and enc: "reference_encrypt_bytes (pkcs7_pad data) password salt iv = Inr container"
    by (auto simp: reference_encrypt_def split: option.splits)
  have ne: "pkcs7_pad data \<noteq> []" by (simp add: pkcs7_pad_def)
  from enc assms(2) ne
  show "decrypt container password' = Inl UnicodeEncodeError
         \<or> decrypt container password' = Inl UnicodeDecodeError
         \<or> (\<exists>s. decrypt container password' = Inr s)"
    by (rule decrypt_reference_outcomes)
  from enc assms(2) obtain ct where c: "decrypt_container container = Inr (salt, iv, ct)"
    by (rule reference_container)
  assume "derive_key password' salt = derive_key password salt"
  with c have "decrypt container password' = decrypt container password"
    by (rule decrypt_same_key)
  also from enc assms(2) have "decrypted_data container password = Inr (pkcs7_pad data)"
    by (rule decrypted_data_reference)
  then have "decrypt container password = Inr plaintext"
    using data by (rule decrypt_of_padded)
  finally show "decrypt container password' = Inr plaintext" .
next
  fix pw
  assume "utf8_encode password = Some pw \<and> length pw < 64"
  then show "derive_key (password @ [0]) salt = derive_key password salt"
    by (auto intro: derive_key_append_nul)
qed

theorem wrong_passphrase_witness:
  "reference_encrypt (text_of ''[]'') sample_password sample_salt sample_iv
     = Inr (sample_container padded_empty_array)
   \<and> length sample_salt = 32 \<and> length sample_iv = 16
   \<and> derive_key (sample_password @ [0]) sample_salt = derive_key sample_password sample_salt
   \<and> decrypt (sample_container padded_empty_array) (sample_password @ [0])
       = Inr (text_of ''[]'')"
proof -
  have s: "length sample_salt = 32" and i: "length sample_iv = 16"
    by (simp_all add: sample_salt_def sample_iv_def)
  note th = wrong_passphrase [OF reference_encrypt_empty_array s i, of "sample_password @ [0]"]
  from th sample_password_nul
  have "decrypt (sample_container padded_empty_array) (sample_password @ [0])
       = Inr (text_of ''[]'')"
    by blast
  with reference_encrypt_empty_array s i sample_password_nul show ?thesis
    by (simp only: simp_thms)
qed

text \<open>
  The claim as the specification states it (never the original plaintext under another
  passphrase) fails for the backup of \<^verbatim>\<open>[]\<close> under \<^verbatim>\<open>correct horse\<close>, decrypted with
  \<^verbatim>\<open>correct horse\<close> followed by a NUL character.
\<close>

theorem wrong_passphrase_counterexample:
  "sample_password @ [0] \<noteq> sample_password
   \<and> reference_encrypt (text_of ''[]'') sample_password sample_salt sample_iv
       = Inr (sample_container padded_empty_array)
   \<and> decrypt (sample_container padded_empty_array) (sample_password @ [0])
       = Inr (text_of ''[]'')"
proof -
  have al: "length padded_empty_array mod 16 = 0" by (simp add: padded_empty_array_def)
  have s: "length sample_salt = 32" by (simp add: sample_salt_def)
  from sample_container(1) [OF al] s
  obtain ct where "decrypt_container (sample_container padded_empty_array)
                   = Inr (sample_salt, sample_iv, ct)"
    by (rule reference_container)
  from this sample_password_nul
  have "decrypt (sample_container padded_empty_array) (sample_password @ [0])
        = decrypt (sample_container padded_empty_array) sample_password"
    by (rule decrypt_same_key)
  also have "\<dots> = Inr (text_of ''[]'')"
    using sample_container(2) [OF al] utf8_empty_array
    unfolding pkcs7_pad_empty_array [symmetric] by (rule decrypt_of_padded)
  finally show ?thesis
    using reference_encrypt_empty_array by simp
qed

end
